theory Spec2Isabelle
  imports Complex_Main "HOL-Library.Multiset"
begin

section \<open>Results and errors\<close>

text \<open>
  The semiring layer of \<^verbatim>\<open>semirings.py\<close> is a family of stateless classes whose
  methods are tensor programs.  A method either returns a tensor or raises; the model
  returns \<open>error + 'a\<close>.  \<open>AssertionError\<close> is a failed Python \<^verbatim>\<open>assert\<close>,
  \<open>IndexError\<close> and \<open>RuntimeError\<close> are the exceptions of the tensor library
  (dimension or index out of range; incompatible shapes, bad view, bad top-k size),
  \<open>AttributeError\<close> is a tensor method called on a Python list.
  Tensor elements are modelled as real numbers: rounding, infinities and NaN of floating
  point are outside the model.  The one place where the library would produce an
  infinity from finite inputs, a log-sum-exp over an empty axis, is the outcome
  \<open>NotReal\<close>; it is not a Python exception.
\<close>

datatype error = AssertionError | IndexError | RuntimeError | AttributeError | NotReal

definition then_do :: "error + 'a \<Rightarrow> ('a \<Rightarrow> error + 'b) \<Rightarrow> error + 'b" where
  "then_do m f = (case m of Inl e \<Rightarrow> Inl e | Inr x \<Rightarrow> f x)"

definition NEGINF :: real where
  "NEGINF = - 1000000000000"

section \<open>Tensors\<close>

text \<open>
  A tensor is its shape and its elements in row-major (contiguous) order.  The model has
  no strides: \<^verbatim>\<open>permute\<close> rearranges the elements and \<^verbatim>\<open>contiguous\<close> is the
  identity, so \<^verbatim>\<open>view\<close> only relabels the shape.
\<close>

record 'a tensor =
  shape :: "nat list"
  data :: "'a list"

definition wf :: "'a tensor \<Rightarrow> bool" where
  "wf t = (length (data t) = prod_list (shape t))"

definition ndim :: "'a tensor \<Rightarrow> nat" where
  "ndim t = length (shape t)"

fun indices :: "nat list \<Rightarrow> nat list list" where
  "indices [] = [[]]"
| "indices (n # s) = concat (map (\<lambda>i. map ((#) i) (indices s)) [0..<n])"

fun offset :: "nat list \<Rightarrow> nat list \<Rightarrow> nat" where
  "offset (n # s) (i # idx) = i * prod_list s + offset s idx"
| "offset _ _ = 0"

definition valid_index :: "nat list \<Rightarrow> nat list \<Rightarrow> bool" where
  "valid_index s idx = list_all2 (<) idx s"

definition elem :: "'a tensor \<Rightarrow> nat list \<Rightarrow> 'a" where
  "elem t idx = data t ! offset (shape t) idx"

definition tabulate :: "nat list \<Rightarrow> (nat list \<Rightarrow> 'a) \<Rightarrow> 'a tensor" where
  "tabulate s f = \<lparr>shape = s, data = map f (indices s)\<rparr>"

section \<open>The tensor library, as the semirings use it\<close>

text \<open>
  A dimension argument \<open>d\<close> of a tensor with \<open>n\<close> axes must lie in \<open>[-n, n)\<close>, a negative
  one counting from the end; a 0-dimensional tensor counts as having one axis here.
\<close>

definition wrap_dim :: "nat \<Rightarrow> int \<Rightarrow> error + nat" where
  "wrap_dim n d =
     (let m = int (max n 1)
      in if - m \<le> d \<and> d < m then Inr (nat (if d < 0 then d + m else d))
         else Inl IndexError)"

definition remove_nth :: "nat \<Rightarrow> 'b list \<Rightarrow> 'b list" where
  "remove_nth a xs = take a xs @ drop (Suc a) xs"

definition insert_nth :: "nat \<Rightarrow> 'b \<Rightarrow> 'b list \<Rightarrow> 'b list" where
  "insert_nth a x xs = take a xs @ x # drop a xs"

definition lane :: "'a tensor \<Rightarrow> nat \<Rightarrow> nat list \<Rightarrow> 'a list" where
  \<comment> \<open>the elements along axis \<open>a\<close>, at the position \<open>idx\<close> of the other axes\<close>
  "lane t a idx = map (\<lambda>j. elem t (insert_nth a j idx)) [0..<shape t ! a]"

definition reduce :: "('a list \<Rightarrow> 'b) \<Rightarrow> 'a tensor \<Rightarrow> nat \<Rightarrow> 'b tensor" where
  "reduce g t a =
     (if shape t = [] then tabulate [] (\<lambda>_. g [elem t []])
      else tabulate (remove_nth a (shape t)) (\<lambda>idx. g (lane t a idx)))"

definition torch_sum :: "real tensor \<Rightarrow> int \<Rightarrow> error + real tensor" where
  "torch_sum t d = then_do (wrap_dim (ndim t) d) (\<lambda>a. Inr (reduce sum_list t a))"

definition logsumexp_list :: "real list \<Rightarrow> real" where
  "logsumexp_list xs = ln (sum_list (map exp xs))"

definition torch_logsumexp :: "real tensor \<Rightarrow> int \<Rightarrow> error + real tensor" where
  "torch_logsumexp t d =
     then_do (wrap_dim (ndim t) d) (\<lambda>a.
       if shape t \<noteq> [] \<and> shape t ! a = 0 \<and> prod_list (remove_nth a (shape t)) \<noteq> 0
       then Inl NotReal
       else Inr (reduce logsumexp_list t a))"

definition max_list :: "real list \<Rightarrow> real" where
  \<comment> \<open>the maximum of a non-empty list; \<open>torch_max_values\<close> never passes an empty one\<close>
  "max_list xs = fold max (tl xs) (hd xs)"

definition torch_max_values :: "real tensor \<Rightarrow> int \<Rightarrow> error + real tensor" where
  \<comment> \<open>\<^verbatim>\<open>torch.max(xs, dim=dim)[0]\<close>; an empty reduced axis is an error\<close>
  "torch_max_values t d =
     then_do (wrap_dim (ndim t) d) (\<lambda>a.
       if shape t \<noteq> [] \<and> shape t ! a = 0 then Inl IndexError
       else Inr (reduce max_list t a))"

definition topk_list :: "nat \<Rightarrow> real list \<Rightarrow> real list" where
  "topk_list k xs = take k (rev (sort xs))"

definition torch_topk_values :: "real tensor \<Rightarrow> nat \<Rightarrow> int \<Rightarrow> error + real tensor" where
  \<comment> \<open>\<^verbatim>\<open>torch.topk(xs, k, dim)[0]\<close>: the \<open>k\<close> largest along the axis, in descending order;
      \<open>k\<close> larger than the axis is an error.  The semirings never pass a 0-dimensional
      tensor, which the library treats as a single value.\<close>
  "torch_topk_values t k d =
     then_do (wrap_dim (ndim t) d) (\<lambda>a.
       if shape t = [] then (if 1 < k then Inl RuntimeError else Inr t)
       else if shape t ! a < k then Inl RuntimeError
       else Inr (tabulate ((shape t)[a := k])
                  (\<lambda>idx. topk_list k (lane t a (remove_nth a idx)) ! (idx ! a))))"

definition unsqueeze :: "'a tensor \<Rightarrow> int \<Rightarrow> error + 'a tensor" where
  "unsqueeze t d =
     then_do (wrap_dim (ndim t + 1) d) (\<lambda>a. Inr (t\<lparr>shape := insert_nth a 1 (shape t)\<rparr>))"

definition squeeze :: "'a tensor \<Rightarrow> int \<Rightarrow> error + 'a tensor" where
  "squeeze t d =
     then_do (wrap_dim (ndim t) d) (\<lambda>a.
       Inr (if shape t \<noteq> [] \<and> shape t ! a = 1 then t\<lparr>shape := remove_nth a (shape t)\<rparr> else t))"

definition wrap_index :: "nat \<Rightarrow> int \<Rightarrow> error + nat" where
  \<comment> \<open>Python indexing: negative indices count from the end\<close>
  "wrap_index n i =
     (if - int n \<le> i \<and> i < int n then Inr (nat (if i < 0 then i + int n else i))
      else Inl IndexError)"

definition select :: "'a tensor \<Rightarrow> int \<Rightarrow> error + 'a tensor" where
  \<comment> \<open>\<^verbatim>\<open>xs[i]\<close> for an integer \<open>i\<close>\<close>
  "select t i =
     (if shape t = [] then Inl IndexError
      else then_do (wrap_index (hd (shape t)) i) (\<lambda>j.
             Inr (tabulate (tl (shape t)) (\<lambda>idx. elem t (j # idx)))))"

definition pad_shape :: "nat \<Rightarrow> nat list \<Rightarrow> nat list" where
  "pad_shape n s = replicate (n - length s) 1 @ s"

definition broadcast_shape :: "nat list \<Rightarrow> nat list \<Rightarrow> error + nat list" where
  \<comment> \<open>shapes are aligned at the right; two sizes are compatible when equal or one is 1\<close>
  "broadcast_shape s1 s2 =
     (let n = max (length s1) (length s2); p1 = pad_shape n s1; p2 = pad_shape n s2
      in if list_all2 (\<lambda>x y. x = y \<or> x = 1 \<or> y = 1) p1 p2
         then Inr (map2 (\<lambda>x y. if x = 1 then y else x) p1 p2)
         else Inl RuntimeError)"

definition broadcast_index :: "nat list \<Rightarrow> nat list \<Rightarrow> nat list" where
  \<comment> \<open>the index into a tensor of shape \<open>s\<close> that position \<open>idx\<close> of the broadcast result reads\<close>
  "broadcast_index s idx =
     map2 (\<lambda>n i. if n = 1 then 0 else i) s (drop (length idx - length s) idx)"

definition binop :: "('a \<Rightarrow> 'b \<Rightarrow> 'c) \<Rightarrow> 'a tensor \<Rightarrow> 'b tensor \<Rightarrow> error + 'c tensor" where
  "binop f a b =
     then_do (broadcast_shape (shape a) (shape b)) (\<lambda>s.
       Inr (tabulate s (\<lambda>idx. f (elem a (broadcast_index (shape a) idx))
                                 (elem b (broadcast_index (shape b) idx)))))"

definition tensor_add :: "real tensor \<Rightarrow> real tensor \<Rightarrow> error + real tensor" where
  "tensor_add = binop (+)"

definition tensor_sub :: "real tensor \<Rightarrow> real tensor \<Rightarrow> error + real tensor" where
  "tensor_sub = binop (-)"

definition tensor_mul :: "real tensor \<Rightarrow> real tensor \<Rightarrow> error + real tensor" where
  "tensor_mul = binop (*)"

definition tensor_exp :: "real tensor \<Rightarrow> real tensor" where
  "tensor_exp t = tabulate (shape t) (\<lambda>idx. exp (elem t idx))"

definition expand_to :: "nat list \<Rightarrow> 'a tensor \<Rightarrow> error + 'a tensor" where
  \<comment> \<open>the operand of an in-place operation is broadcast to the shape of the target; an
      operand that does not broadcast to exactly that shape is an error\<close>
  "expand_to s t =
     (if broadcast_shape (shape t) s = Inr s
      then Inr (tabulate s (\<lambda>idx. elem t (broadcast_index (shape t) idx)))
      else Inl RuntimeError)"

definition zeros :: "nat list \<Rightarrow> real tensor" where
  "zeros s = tabulate s (\<lambda>_. 0)"

definition zeros_like :: "real tensor \<Rightarrow> real tensor" where
  "zeros_like t = zeros (shape t)"

definition fill :: "real tensor \<Rightarrow> real \<Rightarrow> real tensor" where
  \<comment> \<open>\<^verbatim>\<open>xs.fill_(v)\<close>: the tensor after the call\<close>
  "fill t v = tabulate (shape t) (\<lambda>_. v)"

definition set_item :: "'a tensor \<Rightarrow> int \<Rightarrow> 'a tensor \<Rightarrow> error + 'a tensor" where
  \<comment> \<open>\<^verbatim>\<open>xs[i] = src\<close>: the tensor after the assignment\<close>
  "set_item t i src =
     (if shape t = [] then Inl IndexError
      else then_do (wrap_index (hd (shape t)) i) (\<lambda>j.
           then_do (expand_to (tl (shape t)) src) (\<lambda>e.
             Inr (tabulate (shape t) (\<lambda>idx. if hd idx = j then elem e (tl idx) else elem t idx)))))"

definition set_item_scalar :: "'a tensor \<Rightarrow> int \<Rightarrow> 'a \<Rightarrow> error + 'a tensor" where
  \<comment> \<open>\<^verbatim>\<open>xs[i] = v\<close> and \<^verbatim>\<open>xs[i].fill_(v)\<close> for a number \<open>v\<close>\<close>
  "set_item_scalar t i v =
     (if shape t = [] then Inl IndexError
      else then_do (wrap_index (hd (shape t)) i) (\<lambda>j.
             Inr (tabulate (shape t) (\<lambda>idx. if hd idx = j then v else elem t idx))))"

definition masked_fill :: "'a tensor \<Rightarrow> bool tensor \<Rightarrow> 'a \<Rightarrow> error + 'a tensor" where
  \<comment> \<open>\<^verbatim>\<open>xs.masked_fill_(msk, v)\<close>: the tensor after the call\<close>
  "masked_fill t msk v =
     then_do (expand_to (shape t) msk) (\<lambda>m.
       Inr (tabulate (shape t) (\<lambda>idx. if elem m idx then v else elem t idx)))"

definition select_masked_fill :: "'a tensor \<Rightarrow> int \<Rightarrow> bool tensor \<Rightarrow> 'a \<Rightarrow> error + 'a tensor" where
  \<comment> \<open>\<^verbatim>\<open>xs[i].masked_fill_(msk, v)\<close>: \<^verbatim>\<open>xs[i]\<close> is a view, so \<^verbatim>\<open>xs\<close> changes\<close>
  "select_masked_fill t i msk v =
     then_do (select t i) (\<lambda>x. then_do (masked_fill x msk v) (\<lambda>x'. set_item t i x'))"

definition stack :: "'a tensor list \<Rightarrow> error + 'a tensor" where
  \<comment> \<open>\<^verbatim>\<open>torch.stack(ts)\<close>, along a new leading axis\<close>
  "stack ts =
     (if ts = [] \<or> \<not> list_all (\<lambda>t. shape t = shape (hd ts)) ts then Inl RuntimeError
      else Inr (tabulate (length ts # shape (hd ts)) (\<lambda>idx. elem (ts ! hd idx) (tl idx))))"

definition stack_last :: "'a tensor list \<Rightarrow> error + 'a tensor" where
  \<comment> \<open>\<^verbatim>\<open>torch.stack(ts, dim=-1)\<close>, along a new last axis\<close>
  "stack_last ts =
     (if ts = [] \<or> \<not> list_all (\<lambda>t. shape t = shape (hd ts)) ts then Inl RuntimeError
      else Inr (tabulate (shape (hd ts) @ [length ts]) (\<lambda>idx. elem (ts ! last idx) (butlast idx))))"

definition view :: "'a tensor \<Rightarrow> nat list \<Rightarrow> error + 'a tensor" where
  "view t s = (if prod_list s = prod_list (shape t) then Inr (t\<lparr>shape := s\<rparr>) else Inl RuntimeError)"

definition view_infer_last :: "'a tensor \<Rightarrow> nat list \<Rightarrow> error + 'a tensor" where
  \<comment> \<open>\<^verbatim>\<open>xs.view(s + (-1, ))\<close>: the last size is inferred from the number of elements\<close>
  "view_infer_last t s =
     (if prod_list s = 0 \<or> prod_list (shape t) mod prod_list s \<noteq> 0 then Inl RuntimeError
      else Inr (t\<lparr>shape := s @ [prod_list (shape t) div prod_list s]\<rparr>))"

definition index_of :: "nat list \<Rightarrow> nat \<Rightarrow> nat" where
  "index_of perm b = length (takeWhile (\<lambda>x. x \<noteq> b) perm)"

definition permute :: "'a tensor \<Rightarrow> nat list \<Rightarrow> error + 'a tensor" where
  \<comment> \<open>axis \<open>a\<close> of the result is axis \<open>perm ! a\<close> of the input\<close>
  "permute t perm =
     (if sort perm = [0..<ndim t]
      then Inr (tabulate (map ((!) (shape t)) perm)
                 (\<lambda>idx. elem t (map (\<lambda>b. idx ! index_of perm b) [0..<ndim t])))
      else Inl RuntimeError)"

section \<open>The semirings of \<^verbatim>\<open>semirings.py\<close>\<close>

text \<open>
  The classes are stateless, so a semiring is a value of \<open>semiring\<close> and a class method
  is a function of it.  \<open>KMaxSemiring k\<close> and \<open>TempMax alpha\<close> are the classes the two
  factories return.  A method that is inherited is dispatched to the defining class, as
  Python's method resolution does.  The development covers \<^verbatim>\<open>size\<close>, \<^verbatim>\<open>convert\<close>,
  \<^verbatim>\<open>unconvert\<close>, \<^verbatim>\<open>mul\<close>, \<^verbatim>\<open>plus\<close>, \<^verbatim>\<open>zero_\<close>, \<^verbatim>\<open>one_\<close>, \<^verbatim>\<open>zero_mask_\<close> and the
  \<^verbatim>\<open>sum\<close> methods of the Counting, Log, Max, K-Max and expectation semirings;
  \<^verbatim>\<open>prod\<close>, \<^verbatim>\<open>times\<close>, \<^verbatim>\<open>matmul\<close>, \<^verbatim>\<open>dot\<close>, \<^verbatim>\<open>sparse_sum\<close> and the empty
  \<^verbatim>\<open>sum\<close> of \<^verbatim>\<open>TempMax\<close> are not translated.
\<close>

datatype semiring =
    StdSemiring | LogSemiring | MaxSemiring | KMaxSemiring nat
  | KLDivergenceSemiring | CrossEntropySemiring | EntropySemiring | RiskSemiring
  | TempMax real

text \<open>
  Isabelle names cannot end with an underscore: the in-place methods \<^verbatim>\<open>zero_\<close>,
  \<^verbatim>\<open>one_\<close> and \<^verbatim>\<open>zero_mask_\<close> are \<open>zero_inplace\<close>, \<open>one_inplace\<close> and
  \<open>zero_mask_inplace\<close>; the Python parameters \<^verbatim>\<open>mask\<close> and
  \<^verbatim>\<open>dim\<close> are \<open>msk\<close> and \<open>dm\<close>, since HOL has constants of those names.
\<close>

text \<open>The argument of \<^verbatim>\<open>convert\<close>: \<^verbatim>\<open>Union[Tensor, List[Tensor]]\<close>.\<close>

datatype potentials = PTensor "real tensor" | PList "real tensor list"

definition get_item :: "potentials \<Rightarrow> int \<Rightarrow> error + real tensor" where
  \<comment> \<open>\<^verbatim>\<open>xs[i]\<close> on a tensor or on a Python list\<close>
  "get_item xs i =
     (case xs of
        PTensor t \<Rightarrow> select t i
      | PList ts \<Rightarrow> then_do (wrap_index (length ts) i) (\<lambda>j. Inr (ts ! j)))"

subsection \<open>\<^verbatim>\<open>Semiring\<close>, \<^verbatim>\<open>_Base\<close>, \<^verbatim>\<open>_BaseLog\<close>\<close>

definition Semiring_size :: nat where
  "Semiring_size = 1"

definition Semiring_convert :: "potentials \<Rightarrow> error + real tensor" where
  "Semiring_convert potentials =
     (case potentials of PTensor t \<Rightarrow> unsqueeze t 0 | PList _ \<Rightarrow> Inl AttributeError)"

definition Semiring_unconvert :: "real tensor \<Rightarrow> error + real tensor" where
  "Semiring_unconvert potentials = squeeze potentials 0"

text \<open>
  An in-place method is modelled by the tensor \<^verbatim>\<open>xs\<close> after the call.  \<^verbatim>\<open>zero_\<close> and
  \<^verbatim>\<open>one_\<close> return \<^verbatim>\<open>xs\<close> itself; \<^verbatim>\<open>zero_mask_\<close> has no \<^verbatim>\<open>return\<close>, so its
  result is the pair of the returned value \<open>None\<close> and the tensor after the call.
\<close>

definition Semiring_zero_mask_inplace ::
  "real \<Rightarrow> real tensor \<Rightarrow> bool tensor \<Rightarrow> error + (real tensor option \<times> real tensor)" where
  \<comment> \<open>the first argument is the class attribute \<^verbatim>\<open>cls.zero\<close>\<close>
  "Semiring_zero_mask_inplace zero xs msk =
     then_do (unsqueeze msk 0) (\<lambda>m.
     then_do (masked_fill xs m zero) (\<lambda>xs'. Inr (None, xs')))"

definition Semiring_plus ::
  "(real tensor \<Rightarrow> int \<Rightarrow> error + real tensor) \<Rightarrow> real tensor \<Rightarrow> real tensor \<Rightarrow> error + real tensor" where
  \<comment> \<open>the first argument is \<^verbatim>\<open>cls.sum\<close>\<close>
  "Semiring_plus cls_sum a b = then_do (stack_last [a, b]) (\<lambda>s. cls_sum s (- 1))"

definition Base_zero :: real where
  "Base_zero = 0"

definition Base_mul :: "real tensor \<Rightarrow> real tensor \<Rightarrow> error + real tensor" where
  "Base_mul a b = tensor_mul a b"

definition Base_zero_inplace :: "real tensor \<Rightarrow> real tensor" where
  "Base_zero_inplace xs = fill xs 0"

definition Base_one_inplace :: "real tensor \<Rightarrow> real tensor" where
  "Base_one_inplace xs = fill xs 1"

definition BaseLog_zero :: real where
  "BaseLog_zero = NEGINF"

definition BaseLog_sum :: "real tensor \<Rightarrow> int \<Rightarrow> error + real tensor" where
  "BaseLog_sum xs dm = torch_logsumexp xs dm"

definition BaseLog_mul :: "real tensor \<Rightarrow> real tensor \<Rightarrow> error + real tensor" where
  "BaseLog_mul a b = tensor_add a b"

definition BaseLog_zero_inplace :: "real tensor \<Rightarrow> real tensor" where
  "BaseLog_zero_inplace xs = fill xs NEGINF"

definition BaseLog_one_inplace :: "real tensor \<Rightarrow> real tensor" where
  "BaseLog_one_inplace xs = fill xs 0"

subsection \<open>\<^verbatim>\<open>StdSemiring\<close>, \<^verbatim>\<open>MaxSemiring\<close>\<close>

definition StdSemiring_sum :: "real tensor \<Rightarrow> int \<Rightarrow> error + real tensor" where
  "StdSemiring_sum xs dm = torch_sum xs dm"

definition MaxSemiring_sum :: "real tensor \<Rightarrow> int \<Rightarrow> error + real tensor" where
  "MaxSemiring_sum xs dm = torch_max_values xs dm"

subsection \<open>\<^verbatim>\<open>KMaxSemiring(k)\<close>\<close>

definition KMaxSemiring_size :: "nat \<Rightarrow> nat" where
  "KMaxSemiring_size k = k"

definition KMaxSemiring_convert :: "nat \<Rightarrow> potentials \<Rightarrow> error + real tensor" where
  "KMaxSemiring_convert k orig_potentials =
     (case orig_potentials of
        PList _ \<Rightarrow> Inl AttributeError
      | PTensor orig \<Rightarrow>
          (let potentials = zeros (k # shape orig);
               potentials = BaseLog_zero_inplace potentials
           in set_item potentials 0 orig))"

definition KMaxSemiring_one_inplace :: "nat \<Rightarrow> real tensor \<Rightarrow> error + real tensor" where
  "KMaxSemiring_one_inplace k xs = (let xs = BaseLog_zero_inplace xs in set_item_scalar xs 0 0)"

definition KMaxSemiring_unconvert :: "nat \<Rightarrow> real tensor \<Rightarrow> error + real tensor" where
  "KMaxSemiring_unconvert k potentials = select potentials 0"

definition KMaxSemiring_sum :: "nat \<Rightarrow> real tensor \<Rightarrow> int \<Rightarrow> error + real tensor" where
  "KMaxSemiring_sum k xs dm =
     (if dm = - 1 then
        then_do (permute xs ([1..<ndim xs] @ [0])) (\<lambda>xs.
        then_do (view_infer_last xs (butlast (butlast (shape xs)))) (\<lambda>xs.
        then_do (torch_topk_values xs k (- 1)) (\<lambda>xs.
        then_do (permute xs ((ndim xs - 1) # [0..<ndim xs - 1])) (\<lambda>xs.
          if hd (shape xs) = k then Inr xs else Inl AssertionError))))
      else Inl AssertionError)"

definition KMaxSemiring_mul :: "nat \<Rightarrow> real tensor \<Rightarrow> real tensor \<Rightarrow> error + real tensor" where
  "KMaxSemiring_mul k a b =
     then_do (view a (k # 1 # tl (shape a))) (\<lambda>a.
     then_do (view b (1 # k # tl (shape b))) (\<lambda>b.
     then_do (tensor_add a b) (\<lambda>c.
     then_do (view c ((k * k) # drop 2 (shape c))) (\<lambda>c.
     then_do (torch_topk_values c k 0) (\<lambda>ret.
       if hd (shape ret) = k then Inr ret else Inl AssertionError)))))"

subsection \<open>The expectation semirings\<close>

definition convert3 :: "potentials \<Rightarrow> error + real tensor" where
  \<comment> \<open>the body that \<^verbatim>\<open>KLDivergenceSemiring.convert\<close>, \<^verbatim>\<open>CrossEntropySemiring.convert\<close> and
      \<^verbatim>\<open>RiskSemiring.convert\<close> share word for word\<close>
  "convert3 xs =
     then_do (get_item xs 0) (\<lambda>x0.
     let values = zeros (3 # shape x0) in
     then_do (get_item xs 0) (\<lambda>x0.
     then_do (set_item values 0 x0) (\<lambda>values.
     then_do (get_item xs 1) (\<lambda>x1.
     then_do (set_item values 1 x1) (\<lambda>values.
       set_item_scalar values 2 0)))))"

definition KLDivergenceSemiring_size :: nat where
  "KLDivergenceSemiring_size = 3"

definition KLDivergenceSemiring_convert :: "potentials \<Rightarrow> error + real tensor" where
  "KLDivergenceSemiring_convert xs = convert3 xs"

definition KLDivergenceSemiring_unconvert :: "real tensor \<Rightarrow> error + real tensor" where
  "KLDivergenceSemiring_unconvert xs = select xs (- 1)"

definition KLDivergenceSemiring_sum :: "real tensor \<Rightarrow> int \<Rightarrow> error + real tensor" where
  "KLDivergenceSemiring_sum xs dm =
     (if dm = 0 then Inl AssertionError else
      let d = (if dm > 0 then dm - 1 else dm) in
      then_do (select xs 0) (\<lambda>x0.
      then_do (torch_logsumexp x0 d) (\<lambda>part_p.
      then_do (select xs 1) (\<lambda>x1.
      then_do (torch_logsumexp x1 d) (\<lambda>part_q.
      then_do (select xs 0) (\<lambda>x0.
      then_do (unsqueeze part_p d) (\<lambda>up.
      then_do (tensor_sub x0 up) (\<lambda>log_sm_p.
      then_do (select xs 1) (\<lambda>x1.
      then_do (unsqueeze part_q d) (\<lambda>uq.
      then_do (tensor_sub x1 uq) (\<lambda>log_sm_q.
      let sm_p = tensor_exp log_sm_p in
      then_do (select xs 2) (\<lambda>x2.
      then_do (tensor_mul x2 sm_p) (\<lambda>t1.
      then_do (tensor_mul log_sm_q sm_p) (\<lambda>t2.
      then_do (tensor_sub t1 t2) (\<lambda>t3.
      then_do (tensor_mul log_sm_p sm_p) (\<lambda>t4.
      then_do (tensor_add t3 t4) (\<lambda>t5.
      then_do (torch_sum t5 d) (\<lambda>s.
        stack [part_p, part_q, s]))))))))))))))))))"

definition KLDivergenceSemiring_mul :: "real tensor \<Rightarrow> real tensor \<Rightarrow> error + real tensor" where
  "KLDivergenceSemiring_mul a b = tensor_add a b"

definition zero_mask3 ::
  "real \<Rightarrow> real \<Rightarrow> real \<Rightarrow> real tensor \<Rightarrow> bool tensor \<Rightarrow> error + (real tensor option \<times> real tensor)" where
  \<comment> \<open>the three statements of a three-component \<^verbatim>\<open>zero_mask_\<close>, with their fill values\<close>
  "zero_mask3 v0 v1 v2 xs msk =
     then_do (select_masked_fill xs 0 msk v0) (\<lambda>xs.
     then_do (select_masked_fill xs 1 msk v1) (\<lambda>xs.
     then_do (select_masked_fill xs 2 msk v2) (\<lambda>xs. Inr (None, xs))))"

definition fill3 :: "real \<Rightarrow> real \<Rightarrow> real \<Rightarrow> real tensor \<Rightarrow> error + real tensor" where
  \<comment> \<open>the three \<^verbatim>\<open>xs[i].fill_(v)\<close> statements of a three-component \<^verbatim>\<open>zero_\<close> or \<^verbatim>\<open>one_\<close>\<close>
  "fill3 v0 v1 v2 xs =
     then_do (set_item_scalar xs 0 v0) (\<lambda>xs.
     then_do (set_item_scalar xs 1 v1) (\<lambda>xs.
       set_item_scalar xs 2 v2))"

definition KLDivergenceSemiring_zero_mask_inplace ::
  "real tensor \<Rightarrow> bool tensor \<Rightarrow> error + (real tensor option \<times> real tensor)" where
  "KLDivergenceSemiring_zero_mask_inplace xs msk = zero_mask3 NEGINF NEGINF 0 xs msk"

definition KLDivergenceSemiring_zero_inplace :: "real tensor \<Rightarrow> error + real tensor" where
  "KLDivergenceSemiring_zero_inplace xs = fill3 NEGINF NEGINF 0 xs"

definition KLDivergenceSemiring_one_inplace :: "real tensor \<Rightarrow> error + real tensor" where
  "KLDivergenceSemiring_one_inplace xs = fill3 0 0 0 xs"

definition CrossEntropySemiring_size :: nat where
  "CrossEntropySemiring_size = 3"

definition CrossEntropySemiring_convert :: "potentials \<Rightarrow> error + real tensor" where
  "CrossEntropySemiring_convert xs = convert3 xs"

definition CrossEntropySemiring_unconvert :: "real tensor \<Rightarrow> error + real tensor" where
  "CrossEntropySemiring_unconvert xs = select xs (- 1)"

definition CrossEntropySemiring_sum :: "real tensor \<Rightarrow> int \<Rightarrow> error + real tensor" where
  "CrossEntropySemiring_sum xs dm =
     (if dm = 0 then Inl AssertionError else
      let d = (if dm > 0 then dm - 1 else dm) in
      then_do (select xs 0) (\<lambda>x0.
      then_do (torch_logsumexp x0 d) (\<lambda>part_p.
      then_do (select xs 1) (\<lambda>x1.
      then_do (torch_logsumexp x1 d) (\<lambda>part_q.
      then_do (select xs 0) (\<lambda>x0.
      then_do (unsqueeze part_p d) (\<lambda>up.
      then_do (tensor_sub x0 up) (\<lambda>log_sm_p.
      then_do (select xs 1) (\<lambda>x1.
      then_do (unsqueeze part_q d) (\<lambda>uq.
      then_do (tensor_sub x1 uq) (\<lambda>log_sm_q.
      let sm_p = tensor_exp log_sm_p in
      then_do (select xs 2) (\<lambda>x2.
      then_do (tensor_mul x2 sm_p) (\<lambda>t1.
      then_do (tensor_mul log_sm_q sm_p) (\<lambda>t2.
      then_do (tensor_sub t1 t2) (\<lambda>t3.
      then_do (torch_sum t3 d) (\<lambda>s.
        stack [part_p, part_q, s]))))))))))))))))"

definition CrossEntropySemiring_mul :: "real tensor \<Rightarrow> real tensor \<Rightarrow> error + real tensor" where
  "CrossEntropySemiring_mul a b = tensor_add a b"

definition CrossEntropySemiring_zero_mask_inplace ::
  "real tensor \<Rightarrow> bool tensor \<Rightarrow> error + (real tensor option \<times> real tensor)" where
  "CrossEntropySemiring_zero_mask_inplace xs msk = zero_mask3 NEGINF NEGINF 0 xs msk"

definition CrossEntropySemiring_zero_inplace :: "real tensor \<Rightarrow> error + real tensor" where
  "CrossEntropySemiring_zero_inplace xs = fill3 NEGINF NEGINF 0 xs"

definition CrossEntropySemiring_one_inplace :: "real tensor \<Rightarrow> error + real tensor" where
  "CrossEntropySemiring_one_inplace xs = fill3 0 0 0 xs"

definition EntropySemiring_size :: nat where
  "EntropySemiring_size = 2"

definition EntropySemiring_convert :: "potentials \<Rightarrow> error + real tensor" where
  "EntropySemiring_convert xs =
     (case xs of
        PList _ \<Rightarrow> Inl AttributeError
      | PTensor x \<Rightarrow>
          (let values = zeros (2 # shape x) in
           then_do (set_item values 0 x) (\<lambda>values. set_item_scalar values 1 0)))"

definition EntropySemiring_unconvert :: "real tensor \<Rightarrow> error + real tensor" where
  "EntropySemiring_unconvert xs = select xs 1"

definition EntropySemiring_sum :: "real tensor \<Rightarrow> int \<Rightarrow> error + real tensor" where
  "EntropySemiring_sum xs dm =
     (if dm = 0 then Inl AssertionError else
      let d = (if dm > 0 then dm - 1 else dm) in
      then_do (select xs 0) (\<lambda>x0.
      then_do (torch_logsumexp x0 d) (\<lambda>part.
      then_do (select xs 0) (\<lambda>x0.
      then_do (unsqueeze part d) (\<lambda>up.
      then_do (tensor_sub x0 up) (\<lambda>log_sm.
      let sm = tensor_exp log_sm in
      then_do (select xs 1) (\<lambda>x1.
      then_do (tensor_mul x1 sm) (\<lambda>t1.
      then_do (tensor_mul log_sm sm) (\<lambda>t2.
      then_do (tensor_sub t1 t2) (\<lambda>t3.
      then_do (torch_sum t3 d) (\<lambda>s.
        stack [part, s])))))))))))"

definition EntropySemiring_mul :: "real tensor \<Rightarrow> real tensor \<Rightarrow> error + real tensor" where
  "EntropySemiring_mul a b = tensor_add a b"

definition EntropySemiring_zero_mask_inplace ::
  "real tensor \<Rightarrow> bool tensor \<Rightarrow> error + (real tensor option \<times> real tensor)" where
  "EntropySemiring_zero_mask_inplace xs msk =
     then_do (select_masked_fill xs 0 msk NEGINF) (\<lambda>xs.
     then_do (select_masked_fill xs 1 msk 0) (\<lambda>xs. Inr (None, xs)))"

definition EntropySemiring_zero_inplace :: "real tensor \<Rightarrow> error + real tensor" where
  "EntropySemiring_zero_inplace xs =
     then_do (set_item_scalar xs 0 NEGINF) (\<lambda>xs. set_item_scalar xs 1 0)"

definition EntropySemiring_one_inplace :: "real tensor \<Rightarrow> error + real tensor" where
  "EntropySemiring_one_inplace xs =
     then_do (set_item_scalar xs 0 0) (\<lambda>xs. set_item_scalar xs 1 0)"

definition RiskSemiring_size :: nat where
  "RiskSemiring_size = 3"

definition RiskSemiring_convert :: "potentials \<Rightarrow> error + real tensor" where
  "RiskSemiring_convert xs = convert3 xs"

definition RiskSemiring_unconvert :: "real tensor \<Rightarrow> error + real tensor" where
  "RiskSemiring_unconvert xs = select xs (- 1)"

definition RiskSemiring_sum :: "real tensor \<Rightarrow> int \<Rightarrow> error + real tensor" where
  "RiskSemiring_sum xs dm =
     (if dm = 0 then Inl AssertionError else
      let d = (if dm > 0 then dm - 1 else dm) in
      then_do (select xs 0) (\<lambda>x0.
      then_do (torch_logsumexp x0 d) (\<lambda>part_p.
      then_do (select xs 0) (\<lambda>x0.
      then_do (unsqueeze part_p d) (\<lambda>up.
      then_do (tensor_sub x0 up) (\<lambda>log_sm_p.
      let sm_p = tensor_exp log_sm_p in
      then_do (select xs 1) (\<lambda>x1.
      then_do (select xs 2) (\<lambda>x2.
      then_do (tensor_add x1 x2) (\<lambda>t1.
      then_do (tensor_mul t1 sm_p) (\<lambda>t2.
      then_do (torch_sum t2 d) (\<lambda>s.
        stack [part_p, zeros_like part_p, s])))))))))))"

definition RiskSemiring_mul :: "real tensor \<Rightarrow> real tensor \<Rightarrow> error + real tensor" where
  "RiskSemiring_mul a b = tensor_add a b"

definition RiskSemiring_zero_mask_inplace ::
  "real tensor \<Rightarrow> bool tensor \<Rightarrow> error + (real tensor option \<times> real tensor)" where
  "RiskSemiring_zero_mask_inplace xs msk = zero_mask3 NEGINF 0 0 xs msk"

definition RiskSemiring_zero_inplace :: "real tensor \<Rightarrow> error + real tensor" where
  "RiskSemiring_zero_inplace xs = fill3 NEGINF 0 0 xs"

definition RiskSemiring_one_inplace :: "real tensor \<Rightarrow> error + real tensor" where
  "RiskSemiring_one_inplace xs = fill3 0 0 0 xs"

subsection \<open>Method resolution\<close>

fun semiring_size :: "semiring \<Rightarrow> nat" where
  "semiring_size (KMaxSemiring k) = KMaxSemiring_size k"
| "semiring_size KLDivergenceSemiring = KLDivergenceSemiring_size"
| "semiring_size CrossEntropySemiring = CrossEntropySemiring_size"
| "semiring_size EntropySemiring = EntropySemiring_size"
| "semiring_size RiskSemiring = RiskSemiring_size"
| "semiring_size _ = Semiring_size"

fun convert :: "semiring \<Rightarrow> potentials \<Rightarrow> error + real tensor" where
  "convert (KMaxSemiring k) p = KMaxSemiring_convert k p"
| "convert KLDivergenceSemiring p = KLDivergenceSemiring_convert p"
| "convert CrossEntropySemiring p = CrossEntropySemiring_convert p"
| "convert EntropySemiring p = EntropySemiring_convert p"
| "convert RiskSemiring p = RiskSemiring_convert p"
| "convert _ p = Semiring_convert p"

fun unconvert :: "semiring \<Rightarrow> real tensor \<Rightarrow> error + real tensor" where
  "unconvert (KMaxSemiring k) t = KMaxSemiring_unconvert k t"
| "unconvert KLDivergenceSemiring t = KLDivergenceSemiring_unconvert t"
| "unconvert CrossEntropySemiring t = CrossEntropySemiring_unconvert t"
| "unconvert EntropySemiring t = EntropySemiring_unconvert t"
| "unconvert RiskSemiring t = RiskSemiring_unconvert t"
| "unconvert _ t = Semiring_unconvert t"

fun mul :: "semiring \<Rightarrow> real tensor \<Rightarrow> real tensor \<Rightarrow> error + real tensor" where
  "mul StdSemiring a b = Base_mul a b"
| "mul (KMaxSemiring k) a b = KMaxSemiring_mul k a b"
| "mul KLDivergenceSemiring a b = KLDivergenceSemiring_mul a b"
| "mul CrossEntropySemiring a b = CrossEntropySemiring_mul a b"
| "mul EntropySemiring a b = EntropySemiring_mul a b"
| "mul RiskSemiring a b = RiskSemiring_mul a b"
| "mul _ a b = BaseLog_mul a b"

fun zero_inplace :: "semiring \<Rightarrow> real tensor \<Rightarrow> error + real tensor" where
  "zero_inplace StdSemiring xs = Inr (Base_zero_inplace xs)"
| "zero_inplace KLDivergenceSemiring xs = KLDivergenceSemiring_zero_inplace xs"
| "zero_inplace CrossEntropySemiring xs = CrossEntropySemiring_zero_inplace xs"
| "zero_inplace EntropySemiring xs = EntropySemiring_zero_inplace xs"
| "zero_inplace RiskSemiring xs = RiskSemiring_zero_inplace xs"
| "zero_inplace _ xs = Inr (BaseLog_zero_inplace xs)"

fun one_inplace :: "semiring \<Rightarrow> real tensor \<Rightarrow> error + real tensor" where
  "one_inplace StdSemiring xs = Inr (Base_one_inplace xs)"
| "one_inplace (KMaxSemiring k) xs = KMaxSemiring_one_inplace k xs"
| "one_inplace KLDivergenceSemiring xs = KLDivergenceSemiring_one_inplace xs"
| "one_inplace CrossEntropySemiring xs = CrossEntropySemiring_one_inplace xs"
| "one_inplace EntropySemiring xs = EntropySemiring_one_inplace xs"
| "one_inplace RiskSemiring xs = RiskSemiring_one_inplace xs"
| "one_inplace _ xs = Inr (BaseLog_one_inplace xs)"

fun zero_mask_inplace ::
  "semiring \<Rightarrow> real tensor \<Rightarrow> bool tensor \<Rightarrow> error + (real tensor option \<times> real tensor)" where
  "zero_mask_inplace StdSemiring xs msk = Semiring_zero_mask_inplace Base_zero xs msk"
| "zero_mask_inplace KLDivergenceSemiring xs msk = KLDivergenceSemiring_zero_mask_inplace xs msk"
| "zero_mask_inplace CrossEntropySemiring xs msk = CrossEntropySemiring_zero_mask_inplace xs msk"
| "zero_mask_inplace EntropySemiring xs msk = EntropySemiring_zero_mask_inplace xs msk"
| "zero_mask_inplace RiskSemiring xs msk = RiskSemiring_zero_mask_inplace xs msk"
| "zero_mask_inplace _ xs msk = Semiring_zero_mask_inplace BaseLog_zero xs msk"

section \<open>Notions used in the statements\<close>

text \<open>
  The definitions of this section are not translations of code.  They name what the
  statements below speak about: which semirings are expectation semirings, well-formed
  inputs, the elements of a component along an axis, softmax and log-softmax of a list,
  the update rules of the running statistic as the specification words them, and what it
  means for a list to be the \<open>k\<close> largest values of another.
\<close>

definition is_expectation :: "semiring \<Rightarrow> bool" where
  "is_expectation sr =
     (sr = KLDivergenceSemiring \<or> sr = CrossEntropySemiring \<or> sr = EntropySemiring \<or> sr = RiskSemiring)"

definition wf_potentials :: "potentials \<Rightarrow> bool" where
  "wf_potentials p = (case p of PTensor t \<Rightarrow> wf t | PList ts \<Rightarrow> list_all wf ts)"

definition component_lane :: "real tensor \<Rightarrow> nat \<Rightarrow> nat \<Rightarrow> nat list \<Rightarrow> real list" where
  \<comment> \<open>the elements of component \<open>c\<close> of a composite value along axis \<open>a\<close> of the component,
      at the position \<open>idx\<close> of the component's other axes\<close>
  "component_lane xs c a idx =
     map (\<lambda>j. elem xs (c # insert_nth a j idx)) [0..<tl (shape xs) ! a]"

definition softmax_list :: "real list \<Rightarrow> real list" where
  "softmax_list ps = map (\<lambda>p. exp p / sum_list (map exp ps)) ps"

definition log_softmax_list :: "real list \<Rightarrow> real list" where
  "log_softmax_list ps = map (\<lambda>p. p - ln (sum_list (map exp ps))) ps"

definition kl_update :: "real list \<Rightarrow> real list \<Rightarrow> real list \<Rightarrow> real" where
  \<comment> \<open>the KL rule: the sum of \<open>softmax(p) * (stat + log_sm_p - log_sm_q)\<close>\<close>
  "kl_update p q stat =
     (\<Sum>j\<leftarrow>[0..<length p].
        softmax_list p ! j * (stat ! j + log_softmax_list p ! j - log_softmax_list q ! j))"

definition risk_update :: "real list \<Rightarrow> real list \<Rightarrow> real list \<Rightarrow> real" where
  \<comment> \<open>the Risk rule: the sum of \<open>softmax(p) * (cost + stat)\<close>\<close>
  "risk_update p cost stat =
     (\<Sum>j\<leftarrow>[0..<length p]. softmax_list p ! j * (cost ! j + stat ! j))"

definition cross_entropy_update :: "real list \<Rightarrow> real list \<Rightarrow> real list \<Rightarrow> real" where
  \<comment> \<open>the Cross-Entropy rule: the sum of \<open>softmax(p) * (stat - log_sm_q)\<close>\<close>
  "cross_entropy_update p q stat =
     (\<Sum>j\<leftarrow>[0..<length p]. softmax_list p ! j * (stat ! j - log_softmax_list q ! j))"

definition entropy_update :: "real list \<Rightarrow> real list \<Rightarrow> real" where
  \<comment> \<open>the Entropy rule: the sum of \<open>softmax(p) * (stat - log_sm_p)\<close>\<close>
  "entropy_update p stat =
     (\<Sum>j\<leftarrow>[0..<length p]. softmax_list p ! j * (stat ! j - log_softmax_list p ! j))"

definition reduces_component_axis ::
  "(real tensor \<Rightarrow> int \<Rightarrow> error + real tensor) \<Rightarrow> real tensor \<Rightarrow> nat \<Rightarrow> int \<Rightarrow> bool" where
  \<comment> \<open>\<open>cls_sum xs dm\<close> returns a value whose components have lost axis \<open>a\<close>, and whose first
      component is the log-sum-exp of the first component of \<open>xs\<close> along that axis\<close>
  "reduces_component_axis cls_sum xs a dm =
     (\<exists>r. cls_sum xs dm = Inr r
        \<and> shape r = hd (shape xs) # remove_nth a (tl (shape xs))
        \<and> (\<forall>idx. valid_index (remove_nth a (tl (shape xs))) idx \<longrightarrow>
              elem r (0 # idx) = logsumexp_list (component_lane xs 0 a idx)))"

definition pairwise_sums :: "real tensor \<Rightarrow> real tensor \<Rightarrow> nat \<Rightarrow> nat list \<Rightarrow> real list" where
  \<comment> \<open>all \<open>k * k\<close> sums \<open>a_i + b_j\<close> at the position \<open>r\<close> of the trailing axes\<close>
  "pairwise_sums a b k r =
     concat (map (\<lambda>i. map (\<lambda>j. elem a (i # r) + elem b (j # r)) [0..<k]) [0..<k])"

definition column :: "real tensor \<Rightarrow> nat \<Rightarrow> nat list \<Rightarrow> real list" where
  \<comment> \<open>the \<open>k\<close> values along the leading axis at the position \<open>r\<close> of the trailing axes\<close>
  "column t k r = map (\<lambda>l. elem t (l # r)) [0..<k]"

definition is_k_largest :: "nat \<Rightarrow> real list \<Rightarrow> real list \<Rightarrow> bool" where
  \<comment> \<open>\<open>ys\<close> are \<open>k\<close> of the values \<open>xs\<close>, counted with multiplicity, in descending order, and
      no value left over is larger than any of them\<close>
  "is_k_largest k xs ys =
     (length ys = k \<and> sorted (rev ys) \<and> mset ys \<subseteq># mset xs
      \<and> (\<forall>x \<in># mset xs - mset ys. \<forall>y \<in> set ys. x \<le> y))"

definition kmax_sorted :: "nat \<Rightarrow> real tensor \<Rightarrow> bool" where
  \<comment> \<open>every \<open>k\<close>-vector of \<open>y\<close> is in descending order and spans at most \<open>- NEGINF\<close>\<close>
  "kmax_sorted k y =
     list_all (\<lambda>r. sorted (rev (column y k r))
                  \<and> list_all (\<lambda>u. list_all (\<lambda>v. u + NEGINF \<le> v) (column y k r)) (column y k r))
       (indices (tl (shape y)))"

definition kmax_candidates :: "real tensor \<Rightarrow> nat \<Rightarrow> nat \<Rightarrow> nat list \<Rightarrow> real list" where
  \<comment> \<open>the \<open>n * k\<close> values of the \<open>k\<close> slots and the \<open>n\<close> alternatives of the last axis at the
      position \<open>r\<close> of the other axes, in the order of the flattened axis\<close>
  "kmax_candidates xs k n r = map (\<lambda>m. elem xs ((m mod k) # r @ [m div k])) [0..<n * k]"

section \<open>Index arithmetic\<close>

lemma valid_index_Nil [simp]: "valid_index [] idx = (idx = [])"
  by (simp add: valid_index_def)

lemma valid_index_Cons:
  "valid_index (n # s) idx = (\<exists>i r. idx = i # r \<and> i < n \<and> valid_index s r)"
  by (cases idx) (auto simp: valid_index_def)

lemma valid_index_Cons_Cons [simp]:
  "valid_index (n # s) (i # r) = (i < n \<and> valid_index s r)"
  by (simp add: valid_index_def)

lemma valid_index_length: "valid_index s idx \<Longrightarrow> length idx = length s"
  by (simp add: valid_index_def list_all2_lengthD)

lemma valid_index_nth: "valid_index s idx \<Longrightarrow> a < length s \<Longrightarrow> idx ! a < s ! a"
  by (simp add: valid_index_def list_all2_nthD2)

lemma valid_index_iff:
  "valid_index s idx = (length idx = length s \<and> (\<forall>a<length s. idx ! a < s ! a))"
  by (auto simp: valid_index_def list_all2_conv_all_nth)

lemma length_indices [simp]: "length (indices s) = prod_list s"
  by (induction s) (simp_all add: length_concat comp_def sum_list_triv)

lemma set_indices: "set (indices s) = {idx. valid_index s idx}"
proof (induction s)
  case Nil
  show ?case by auto
next
  case (Cons n s)
  show ?case
    by (auto simp: Cons valid_index_Cons)
qed

lemma offset_less: "valid_index s idx \<Longrightarrow> offset s idx < prod_list s"
proof (induction s arbitrary: idx)
  case Nil
  then show ?case by simp
next
  case (Cons n s)
  from Cons.prems obtain i r where idx: "idx = i # r" and i: "i < n" and r: "valid_index s r"
    by (auto simp: valid_index_Cons)
  have "offset s r < prod_list s" by (rule Cons.IH [OF r])
  moreover have "i * prod_list s + prod_list s \<le> n * prod_list s"
  proof -
    have "Suc i * prod_list s \<le> n * prod_list s"
      using i by (intro mult_le_mono1) simp
    then show ?thesis by (simp add: add.commute)
  qed
  ultimately show ?case by (simp add: idx)
qed

lemma nth_concat_uniform:
  "\<forall>x\<in>set xss. length x = m \<Longrightarrow> i < length xss \<Longrightarrow> j < m
    \<Longrightarrow> concat xss ! (i * m + j) = xss ! i ! j"
proof (induction xss arbitrary: i)
  case Nil
  then show ?case by simp
next
  case (Cons x xss)
  show ?case
  proof (cases i)
    case 0
    with Cons.prems show ?thesis by (simp add: nth_append)
  next
    case (Suc i')
    with Cons.prems have "concat xss ! (i' * m + j) = xss ! i' ! j"
      by (intro Cons.IH) auto
    moreover have "length x = m" using Cons.prems by simp
    ultimately show ?thesis by (simp add: Suc nth_append add.assoc)
  qed
qed

lemma nth_indices: "valid_index s idx \<Longrightarrow> indices s ! offset s idx = idx"
proof (induction s arbitrary: idx)
  case Nil
  then show ?case by simp
next
  case (Cons n s)
  from Cons.prems obtain i r where idx: "idx = i # r" and i: "i < n" and r: "valid_index s r"
    by (auto simp: valid_index_Cons)
  let ?xss = "map (\<lambda>i. map ((#) i) (indices s)) [0..<n]"
  have "concat ?xss ! (i * prod_list s + offset s r) = ?xss ! i ! offset s r"
    using i offset_less [OF r] by (intro nth_concat_uniform) auto
  also have "\<dots> = i # r"
    using i offset_less [OF r] Cons.IH [OF r] by simp
  finally show ?case by (simp add: idx)
qed

lemma concat_blocks_upt:
  "concat (map (\<lambda>i. map (\<lambda>m. i * p + m) [0..<p]) [0..<n]) = [0..<n * p]"
proof (induction n)
  case 0
  show ?case by simp
next
  case (Suc n)
  have "map (\<lambda>m. n * p + m) [0..<p] = [n * p..<n * p + p]"
    using map_add_upt [of "n * p" p] by (simp add: add.commute)
  moreover have "[0..<n * p + p] = [0..<n * p] @ [n * p..<n * p + p]"
    by (rule upt_add_eq_append) simp
  moreover have "Suc n * p = n * p + p" by simp
  ultimately show ?case
    using Suc by (simp del: mult_Suc)
qed

lemma map_offset_indices: "map (offset s) (indices s) = [0..<prod_list s]"
proof (induction s)
  case Nil
  show ?case by simp
next
  case (Cons n s)
  have "map (offset (n # s)) (indices (n # s))
      = concat (map (\<lambda>i. map (\<lambda>m. i * prod_list s + m) (map (offset s) (indices s))) [0..<n])"
    by (simp add: map_concat comp_def)
  then show ?case
    by (simp add: Cons concat_blocks_upt)
qed

lemma elem_tabulate [simp]: "valid_index s idx \<Longrightarrow> elem (tabulate s f) idx = f idx"
  by (simp add: elem_def tabulate_def offset_less nth_indices)

lemma shape_tabulate [simp]: "shape (tabulate s f) = s"
  by (simp add: tabulate_def)

lemma wf_tabulate [simp]: "wf (tabulate s f)"
  by (simp add: wf_def tabulate_def)

lemma data_eq_map_elem: "wf t \<Longrightarrow> data t = map (elem t) (indices (shape t))"
proof -
  assume "wf t"
  then have len: "length (data t) = prod_list (shape t)" by (simp add: wf_def)
  have "map (elem t) (indices (shape t)) = map ((!) (data t)) (map (offset (shape t)) (indices (shape t)))"
    by (simp add: elem_def comp_def)
  also have "\<dots> = map ((!) (data t)) [0..<length (data t)]"
    by (simp add: map_offset_indices len)
  also have "\<dots> = data t" by (rule map_nth)
  finally show ?thesis by simp
qed

lemma tensor_eqI:
  assumes "wf a" "wf b" "shape a = shape b"
    and "\<And>idx. valid_index (shape a) idx \<Longrightarrow> elem a idx = elem b idx"
  shows "a = (b :: 'a tensor)"
proof -
  have "data a = map (elem a) (indices (shape a))"
    by (rule data_eq_map_elem [OF assms(1)])
  also have "\<dots> = map (elem b) (indices (shape a))"
    using assms(4) by (simp add: set_indices)
  also have "\<dots> = data b"
    using data_eq_map_elem [OF assms(2)] assms(3) by simp
  finally show ?thesis using assms(3) by simp
qed

section \<open>Basic facts about the tensor operations\<close>

lemma then_do_Inr [simp]: "then_do (Inr x) f = f x"
  by (simp add: then_do_def)

lemma then_do_Inl [simp]: "then_do (Inl e) f = Inl e"
  by (simp add: then_do_def)

lemma then_do_eq_Inr:
  "then_do m f = Inr y \<longleftrightarrow> (\<exists>x. m = Inr x \<and> f x = Inr y)"
  by (cases m) simp_all

lemma tabulate_cong:
  "(\<And>idx. valid_index s idx \<Longrightarrow> f idx = g idx) \<Longrightarrow> tabulate s f = tabulate s g"
  by (simp add: tabulate_def set_indices)

lemma tabulate_elem: "wf t \<Longrightarrow> tabulate (shape t) (elem t) = t"
  by (simp add: tabulate_def data_eq_map_elem [symmetric])

lemma wrap_dim_0 [simp]: "wrap_dim n 0 = Inr 0"
  by (simp add: wrap_dim_def Let_def)

lemma wrap_index_nat: "j < n \<Longrightarrow> wrap_index n (int j) = Inr j"
  by (simp add: wrap_index_def)

lemma wrap_index_0: "0 < n \<Longrightarrow> wrap_index n 0 = Inr 0"
  by (simp add: wrap_index_def)

lemma wrap_index_neg1: "0 < n \<Longrightarrow> wrap_index n (- 1) = Inr (n - 1)"
  by (auto simp add: wrap_index_def nat_diff_distrib)

lemma wrap_index_Inr: "wrap_index n i = Inr j \<Longrightarrow> j < n"
  by (auto simp: wrap_index_def split: if_splits)

lemma unsqueeze_0: "unsqueeze t 0 = Inr (t\<lparr>shape := 1 # shape t\<rparr>)"
  by (simp add: unsqueeze_def insert_nth_def)

lemma pad_shape_same [simp]: "length s \<le> n \<Longrightarrow> length (pad_shape n s) = n"
  by (simp add: pad_shape_def)

lemma broadcast_shape_same [simp]: "broadcast_shape s s = Inr s"
proof -
  have "map2 (\<lambda>x y. if x = 1 then y else x) s s = s"
    by (induction s) auto
  moreover have "list_all2 (\<lambda>x y. x = y \<or> x = 1 \<or> y = 1) s s"
    by (simp add: list_all2_same)
  ultimately show ?thesis
    by (simp add: broadcast_shape_def pad_shape_def)
qed

lemma broadcast_index_same:
  "valid_index s idx \<Longrightarrow> broadcast_index s idx = idx"
proof -
  assume v: "valid_index s idx"
  have "map2 (\<lambda>n i. if n = 1 then 0 else i) s idx = idx"
    using v unfolding valid_index_def
    by (induction idx s rule: list_all2_induct) auto
  then show ?thesis
    using valid_index_length [OF v] by (simp add: broadcast_index_def)
qed

lemma expand_to_same: "wf t \<Longrightarrow> expand_to (shape t) t = Inr t"
proof -
  assume w: "wf t"
  have "tabulate (shape t) (\<lambda>idx. elem t (broadcast_index (shape t) idx)) = tabulate (shape t) (elem t)"
    by (rule tabulate_cong) (simp add: broadcast_index_same)
  then show ?thesis by (simp add: expand_to_def tabulate_elem [OF w])
qed

lemma expand_to_shape: "expand_to s t = Inr e \<Longrightarrow> shape e = s"
  by (auto simp: expand_to_def split: if_splits)

lemma expand_to_wf: "expand_to s t = Inr e \<Longrightarrow> wf e"
  by (auto simp: expand_to_def split: if_splits)

lemma set_item_shape: "set_item t i src = Inr t' \<Longrightarrow> shape t' = shape t \<and> shape t \<noteq> [] \<and> 0 < hd (shape t) \<and> wf t'"
  by (auto simp: set_item_def then_do_eq_Inr split: if_splits dest!: wrap_index_Inr)

lemma set_item_scalar_shape: "set_item_scalar t i v = Inr t' \<Longrightarrow> shape t' = shape t \<and> shape t \<noteq> [] \<and> wf t'"
  by (auto simp: set_item_scalar_def then_do_eq_Inr split: if_splits)

lemma select_eq:
  "shape t = n # s \<Longrightarrow> wrap_index n i = Inr j \<Longrightarrow> select t i = Inr (tabulate s (\<lambda>idx. elem t (j # idx)))"
  by (simp add: select_def)

lemma convert3_shape:
  "convert3 xs = Inr v \<Longrightarrow> \<exists>s. shape v = 3 # s \<and> wf v"
  by (auto simp: convert3_def then_do_eq_Inr Let_def zeros_def
      dest!: set_item_shape set_item_scalar_shape)

lemma set_item_scalar_InrD:
  "set_item_scalar t i v = Inr t' \<Longrightarrow>
    \<exists>j. shape t \<noteq> [] \<and> wrap_index (hd (shape t)) i = Inr j
      \<and> t' = tabulate (shape t) (\<lambda>idx. if hd idx = j then v else elem t idx)"
  by (auto simp: set_item_scalar_def then_do_eq_Inr split: if_splits)

lemma set_item_InrD:
  "set_item t i src = Inr t' \<Longrightarrow>
    \<exists>j e. shape t \<noteq> [] \<and> wrap_index (hd (shape t)) i = Inr j \<and> expand_to (tl (shape t)) src = Inr e
      \<and> t' = tabulate (shape t) (\<lambda>idx. if hd idx = j then elem e (tl idx) else elem t idx)"
  by (auto simp: set_item_def then_do_eq_Inr split: if_splits)

lemma wrap_index_0D: "wrap_index n 0 = Inr j \<Longrightarrow> j = 0 \<and> 0 < n"
  by (auto simp: wrap_index_def split: if_splits)

lemma wrap_index_natD: "wrap_index n (int i) = Inr j \<Longrightarrow> j = i \<and> i < n"
  by (auto simp: wrap_index_def split: if_splits)

lemma select_of_set_item_scalar:
  assumes "set_item_scalar t i c = Inr v" "shape t = n # s"
    and "wrap_index n i = Inr j" "wrap_index n i' = Inr j"
  shows "select v i' = Inr (tabulate s (\<lambda>_. c))"
proof -
  from set_item_scalar_InrD [OF assms(1)] assms(2,3)
  have v: "v = tabulate (n # s) (\<lambda>idx. if hd idx = j then c else elem t idx)"
    by auto
  have j: "j < n" by (rule wrap_index_Inr [OF assms(3)])
  have "tabulate s (\<lambda>idx. elem v (j # idx)) = tabulate s (\<lambda>_. c)"
    by (rule tabulate_cong) (simp add: v j)
  then show ?thesis
    using assms(4) by (simp add: select_def v)
qed

lemma convert3_unconvert:
  assumes "convert3 xs = Inr v"
  shows "select v (- 1) = Inr (zeros (tl (shape v)))"
proof -
  from assms obtain t s where t: "set_item_scalar t 2 0 = Inr v" and st: "shape t = 3 # s"
    by (auto simp: convert3_def then_do_eq_Inr Let_def zeros_def dest!: set_item_shape)
  have sv: "shape v = shape t" using set_item_scalar_shape [OF t] by simp
  have "select v (- 1) = Inr (tabulate s (\<lambda>_. 0))"
    by (rule select_of_set_item_scalar [OF t st, of 2]) (simp_all add: wrap_index_def)
  then show ?thesis
    by (simp add: zeros_def sv st)
qed

lemma Entropy_convert_unconvert:
  assumes "EntropySemiring_convert xs = Inr v"
  shows "select v 1 = Inr (zeros (tl (shape v)))"
proof -
  from assms obtain t s where t: "set_item_scalar t 1 0 = Inr v" and st: "shape t = 2 # s"
    by (auto simp: EntropySemiring_convert_def then_do_eq_Inr Let_def zeros_def
        split: potentials.splits dest!: set_item_shape)
  have sv: "shape v = shape t" using set_item_scalar_shape [OF t] by simp
  have "select v 1 = Inr (tabulate s (\<lambda>_. 0))"
    by (rule select_of_set_item_scalar [OF t st, of 1]) (simp_all add: wrap_index_def)
  then show ?thesis
    by (simp add: zeros_def sv st)
qed

lemma Semiring_convert_unconvert:
  assumes "Semiring_convert p = Inr v"
  shows "\<exists>t. p = PTensor t \<and> Semiring_unconvert v = Inr t"
proof -
  from assms obtain t where p: "p = PTensor t" and v: "v = t\<lparr>shape := 1 # shape t\<rparr>"
    by (auto simp: Semiring_convert_def unsqueeze_0 split: potentials.splits)
  have "Semiring_unconvert v = Inr t"
    by (simp add: Semiring_unconvert_def squeeze_def v ndim_def remove_nth_def)
  with p show ?thesis by simp
qed

lemma KMaxSemiring_convert_unconvert:
  assumes "KMaxSemiring_convert k p = Inr v" "wf_potentials p"
  shows "\<exists>t. p = PTensor t \<and> KMaxSemiring_unconvert k v = Inr t"
proof -
  from assms(1) obtain t where p: "p = PTensor t"
    and v: "set_item (BaseLog_zero_inplace (zeros (k # shape t))) 0 t = Inr v"
    by (auto simp: KMaxSemiring_convert_def Let_def split: potentials.splits)
  let ?z = "BaseLog_zero_inplace (zeros (k # shape t))"
  have sz: "shape ?z = k # shape t"
    by (simp add: BaseLog_zero_inplace_def fill_def zeros_def)
  have wt: "wf t" using assms(2) p by (simp add: wf_potentials_def)
  from set_item_InrD [OF v] sz expand_to_same [OF wt]
  have v': "v = tabulate (k # shape t) (\<lambda>idx. if hd idx = 0 then elem t (tl idx) else elem ?z idx)"
    and k: "0 < k"
    by (auto dest!: wrap_index_0D)
  have "tabulate (shape t) (\<lambda>idx. elem v (0 # idx)) = tabulate (shape t) (elem t)"
    by (rule tabulate_cong) (simp add: v' k)
  then have "select v 0 = Inr t"
    using k by (simp add: select_def v' wrap_index_0 tabulate_elem [OF wt])
  then show ?thesis by (simp add: p KMaxSemiring_unconvert_def)
qed

lemma map2_pick_same: "map2 (\<lambda>x y. if x = 1 then y else x) s s = (s :: nat list)"
  by (induction s) (simp_all del: One_nat_def)

lemma broadcast_shape_lead1: "broadcast_shape (Suc 0 # s) (c # s) = Inr (c # s)"
  by (simp add: broadcast_shape_def pad_shape_def list_all2_same map2_pick_same del: One_nat_def)

lemma broadcast_index_lead1:
  "valid_index s r \<Longrightarrow> broadcast_index (Suc 0 # s) (j # r) = 0 # r"
  using broadcast_index_same [of s r] valid_index_length [of s r]
  by (simp add: broadcast_index_def)

lemma elem_unsqueeze0: "elem (t\<lparr>shape := Suc 0 # s\<rparr>) (0 # r) = data t ! offset s r"
  by (simp add: elem_def)

lemma set_item_scalar_eq:
  "shape t = n # s \<Longrightarrow> wrap_index n i = Inr j \<Longrightarrow>
     set_item_scalar t i v = Inr (tabulate (n # s) (\<lambda>idx. if hd idx = j then v else elem t idx))"
  by (simp add: set_item_scalar_def)

lemma set_item_eq:
  "shape t = n # s \<Longrightarrow> wrap_index n i = Inr j \<Longrightarrow> shape src = s \<Longrightarrow> wf src \<Longrightarrow>
     set_item t i src = Inr (tabulate (n # s) (\<lambda>idx. if hd idx = j then elem src (tl idx) else elem t idx))"
  using expand_to_same [of src] by (simp add: set_item_def)

lemma Semiring_zero_mask_inplace_eq:
  assumes "shape xs = c # s" "shape msk = s"
  shows "Semiring_zero_mask_inplace z xs msk
     = Inr (None, tabulate (c # s) (\<lambda>idx. if elem msk (tl idx) then z else elem xs idx))"
proof -
  let ?m = "msk\<lparr>shape := Suc 0 # s\<rparr>"
  let ?e = "tabulate (c # s) (\<lambda>idx. elem ?m (broadcast_index (Suc 0 # s) idx))"
  have e: "expand_to (c # s) ?m = Inr ?e"
    by (simp add: expand_to_def assms broadcast_shape_lead1)
  have "tabulate (c # s) (\<lambda>idx. if elem ?e idx then z else elem xs idx)
      = tabulate (c # s) (\<lambda>idx. if elem msk (tl idx) then z else elem xs idx)"
  proof (rule tabulate_cong)
    fix idx assume v: "valid_index (c # s) idx"
    then obtain j r where idx: "idx = j # r" and r: "valid_index s r"
      by (auto simp: valid_index_Cons)
    show "(if elem ?e idx then z else elem xs idx) = (if elem msk (tl idx) then z else elem xs idx)"
      using v r by (simp add: idx broadcast_index_lead1 elem_unsqueeze0 assms elem_def [of msk])
  qed
  then show ?thesis
    by (simp add: Semiring_zero_mask_inplace_def unsqueeze_0 masked_fill_def assms e)
qed

lemma select_masked_fill_eq:
  assumes "shape xs = c # s" "shape msk = s" "wrap_index c i = Inr j"
  shows "select_masked_fill xs i msk v
     = Inr (tabulate (c # s)
         (\<lambda>idx. if hd idx = j \<and> elem msk (tl idx) then v else elem xs idx))"
proof -
  let ?x = "tabulate s (\<lambda>idx. elem xs (j # idx))"
  let ?m = "tabulate s (\<lambda>idx. elem msk (broadcast_index s idx))"
  let ?x' = "tabulate s (\<lambda>idx. if elem ?m idx then v else elem ?x idx)"
  have sel: "select xs i = Inr ?x"
    by (rule select_eq [OF assms(1,3)])
  have mf: "masked_fill ?x msk v = Inr ?x'"
    by (simp add: masked_fill_def expand_to_def assms(2))
  have si: "set_item xs i ?x' 
     = Inr (tabulate (c # s) (\<lambda>idx. if hd idx = j then elem ?x' (tl idx) else elem xs idx))"
    by (rule set_item_eq [OF assms(1,3)]) simp_all
  have "tabulate (c # s) (\<lambda>idx. if hd idx = j then elem ?x' (tl idx) else elem xs idx)
      = tabulate (c # s) (\<lambda>idx. if hd idx = j \<and> elem msk (tl idx) then v else elem xs idx)"
  proof (rule tabulate_cong)
    fix idx assume v: "valid_index (c # s) idx"
    then obtain j' r where idx: "idx = j' # r" and r: "valid_index s r"
      by (auto simp: valid_index_Cons)
    show "(if hd idx = j then elem ?x' (tl idx) else elem xs idx)
        = (if hd idx = j \<and> elem msk (tl idx) then v else elem xs idx)"
      using r by (simp add: idx broadcast_index_same)
  qed
  then show ?thesis
    by (simp add: select_masked_fill_def sel mf si)
qed

lemma zero_mask3_eq:
  assumes "shape xs = 3 # s" "shape msk = s"
  shows "zero_mask3 v0 v1 v2 xs msk
     = Inr (None, tabulate (3 # s)
         (\<lambda>idx. if elem msk (tl idx) then [v0, v1, v2] ! hd idx else elem xs idx))"
proof -
  let ?f1 = "\<lambda>idx. if hd idx = 0 \<and> elem msk (tl idx) then v0 else elem xs idx"
  let ?f2 = "\<lambda>idx. if hd idx = 1 \<and> elem msk (tl idx) then v1 else elem (tabulate (3 # s) ?f1) idx"
  let ?f3 = "\<lambda>idx. if hd idx = 2 \<and> elem msk (tl idx) then v2 else elem (tabulate (3 # s) ?f2) idx"
  have w: "wrap_index 3 0 = Inr 0" "wrap_index 3 1 = Inr 1" "wrap_index 3 2 = Inr 2"
    by (simp_all add: wrap_index_def)
  have 1: "select_masked_fill xs 0 msk v0 = Inr (tabulate (3 # s) ?f1)"
    by (rule select_masked_fill_eq [OF assms w(1)])
  have 2: "select_masked_fill (tabulate (3 # s) ?f1) 1 msk v1 = Inr (tabulate (3 # s) ?f2)"
    by (rule select_masked_fill_eq [OF _ assms(2) w(2)]) simp
  have 3: "select_masked_fill (tabulate (3 # s) ?f2) 2 msk v2 = Inr (tabulate (3 # s) ?f3)"
    by (rule select_masked_fill_eq [OF _ assms(2) w(3)]) simp
  have "tabulate (3 # s) ?f3
      = tabulate (3 # s) (\<lambda>idx. if elem msk (tl idx) then [v0, v1, v2] ! hd idx else elem xs idx)"
  proof (rule tabulate_cong)
    fix idx assume v: "valid_index (3 # s) idx"
    then obtain j r where idx: "idx = j # r" and j: "j < 3" and r: "valid_index s r"
      by (auto simp: valid_index_Cons)
    from j have "j = 0 \<or> j = 1 \<or> j = 2" by auto
    then show "?f3 idx = (if elem msk (tl idx) then [v0, v1, v2] ! hd idx else elem xs idx)"
      using r by (auto simp: idx)
  qed
  moreover have "zero_mask3 v0 v1 v2 xs msk = Inr (None, tabulate (3 # s) ?f3)"
    by (simp only: zero_mask3_def 1 2 3 then_do_Inr)
  ultimately show ?thesis
    by (simp only:)
qed

lemma fill3_eq:
  assumes "shape xs = 3 # s"
  shows "fill3 v0 v1 v2 xs = Inr (tabulate (3 # s) (\<lambda>idx. [v0, v1, v2] ! hd idx))"
proof -
  let ?f1 = "\<lambda>idx. if hd idx = 0 then v0 else elem xs idx"
  let ?f2 = "\<lambda>idx. if hd idx = 1 then v1 else elem (tabulate (3 # s) ?f1) idx"
  let ?f3 = "\<lambda>idx. if hd idx = 2 then v2 else elem (tabulate (3 # s) ?f2) idx"
  have w: "wrap_index 3 0 = Inr 0" "wrap_index 3 1 = Inr 1" "wrap_index 3 2 = Inr 2"
    by (simp_all add: wrap_index_def)
  have 1: "set_item_scalar xs 0 v0 = Inr (tabulate (3 # s) ?f1)"
    by (rule set_item_scalar_eq [OF assms w(1)])
  have 2: "set_item_scalar (tabulate (3 # s) ?f1) 1 v1 = Inr (tabulate (3 # s) ?f2)"
    by (rule set_item_scalar_eq [OF _ w(2)]) simp
  have 3: "set_item_scalar (tabulate (3 # s) ?f2) 2 v2 = Inr (tabulate (3 # s) ?f3)"
    by (rule set_item_scalar_eq [OF _ w(3)]) simp
  have "tabulate (3 # s) ?f3 = tabulate (3 # s) (\<lambda>idx. [v0, v1, v2] ! hd idx)"
  proof (rule tabulate_cong)
    fix idx assume v: "valid_index (3 # s) idx"
    then obtain j r where idx: "idx = j # r" and j: "j < 3" and r: "valid_index s r"
      by (auto simp: valid_index_Cons)
    from j have "j = 0 \<or> j = 1 \<or> j = 2" by auto
    then show "?f3 idx = [v0, v1, v2] ! hd idx"
      using r by (auto simp: idx)
  qed
  moreover have "fill3 v0 v1 v2 xs = Inr (tabulate (3 # s) ?f3)"
    by (simp only: fill3_def 1 2 3 then_do_Inr)
  ultimately show ?thesis
    by (simp only:)
qed


lemma EntropySemiring_zero_mask_inplace_eq:
  assumes "shape xs = 2 # s" "shape msk = s"
  shows "EntropySemiring_zero_mask_inplace xs msk
     = Inr (None, tabulate (2 # s)
         (\<lambda>idx. if elem msk (tl idx) then [NEGINF, 0] ! hd idx else elem xs idx))"
proof -
  let ?f1 = "\<lambda>idx. if hd idx = 0 \<and> elem msk (tl idx) then NEGINF else elem xs idx"
  let ?f2 = "\<lambda>idx. if hd idx = 1 \<and> elem msk (tl idx) then 0 else elem (tabulate (2 # s) ?f1) idx"
  have w: "wrap_index 2 0 = Inr 0" "wrap_index 2 1 = Inr 1"
    by (simp_all add: wrap_index_def)
  have 1: "select_masked_fill xs 0 msk NEGINF = Inr (tabulate (2 # s) ?f1)"
    by (rule select_masked_fill_eq [OF assms w(1)])
  have 2: "select_masked_fill (tabulate (2 # s) ?f1) 1 msk 0 = Inr (tabulate (2 # s) ?f2)"
    by (rule select_masked_fill_eq [OF _ assms(2) w(2)]) simp
  have "tabulate (2 # s) ?f2
      = tabulate (2 # s) (\<lambda>idx. if elem msk (tl idx) then [NEGINF, 0] ! hd idx else elem xs idx)"
  proof (rule tabulate_cong)
    fix idx assume v: "valid_index (2 # s) idx"
    then obtain j r where idx: "idx = j # r" and j: "j < 2" and r: "valid_index s r"
      by (auto simp: valid_index_Cons)
    from j have "j = 0 \<or> j = 1" by auto
    then show "?f2 idx = (if elem msk (tl idx) then [NEGINF, 0] ! hd idx else elem xs idx)"
      using r by (auto simp: idx)
  qed
  moreover have "EntropySemiring_zero_mask_inplace xs msk = Inr (None, tabulate (2 # s) ?f2)"
    by (simp only: EntropySemiring_zero_mask_inplace_def 1 2 then_do_Inr)
  ultimately show ?thesis
    by (simp only:)
qed

lemma EntropySemiring_fill_eq:
  assumes "shape xs = 2 # s"
  shows "then_do (set_item_scalar xs 0 v0) (\<lambda>xs. set_item_scalar xs 1 v1)
     = Inr (tabulate (2 # s) (\<lambda>idx. [v0, v1] ! hd idx))"
proof -
  let ?f1 = "\<lambda>idx. if hd idx = 0 then v0 else elem xs idx"
  let ?f2 = "\<lambda>idx. if hd idx = 1 then v1 else elem (tabulate (2 # s) ?f1) idx"
  have w: "wrap_index 2 0 = Inr 0" "wrap_index 2 1 = Inr 1"
    by (simp_all add: wrap_index_def)
  have 1: "set_item_scalar xs 0 v0 = Inr (tabulate (2 # s) ?f1)"
    by (rule set_item_scalar_eq [OF assms w(1)])
  have 2: "set_item_scalar (tabulate (2 # s) ?f1) 1 v1 = Inr (tabulate (2 # s) ?f2)"
    by (rule set_item_scalar_eq [OF _ w(2)]) simp
  have "tabulate (2 # s) ?f2 = tabulate (2 # s) (\<lambda>idx. [v0, v1] ! hd idx)"
  proof (rule tabulate_cong)
    fix idx assume v: "valid_index (2 # s) idx"
    then obtain j r where idx: "idx = j # r" and j: "j < 2" and r: "valid_index s r"
      by (auto simp: valid_index_Cons)
    from j have "j = 0 \<or> j = 1" by auto
    then show "?f2 idx = [v0, v1] ! hd idx"
      using r by (auto simp: idx)
  qed
  moreover have "then_do (set_item_scalar xs 0 v0) (\<lambda>xs. set_item_scalar xs 1 v1)
      = Inr (tabulate (2 # s) ?f2)"
    by (simp only: 1 2 then_do_Inr)
  ultimately show ?thesis
    by (simp only:)
qed

lemma zero_mask_base_case:
  assumes "shape xs = c # s" "shape msk = s"
  shows "\<exists>xs'. Semiring_zero_mask_inplace v xs msk = Inr (None, xs')
      \<and> shape xs' = shape xs
      \<and> (\<forall>j idx. j < c \<and> valid_index s idx \<longrightarrow>
           elem xs' (j # idx)
             = (if elem msk idx then elem (fill xs v) (j # idx) else elem xs (j # idx))
           \<and> elem (fill xs v) (j # idx) = v)"
  by (simp add: Semiring_zero_mask_inplace_eq [OF assms] assms fill_def)

lemma zero_mask_three_case:
  assumes "shape xs = 3 # s" "shape msk = s"
  shows "\<exists>xs' z. zero_mask3 v0 v1 v2 xs msk = Inr (None, xs') \<and> fill3 v0 v1 v2 xs = Inr z
      \<and> shape xs' = shape xs
      \<and> (\<forall>j idx. j < 3 \<and> valid_index s idx \<longrightarrow>
           elem xs' (j # idx)
             = (if elem msk idx then elem z (j # idx) else elem xs (j # idx))
           \<and> elem z (j # idx) = [v0, v1, v2] ! j)"
  by (simp add: zero_mask3_eq [OF assms] fill3_eq [OF assms(1)] assms)

lemma zero_mask_two_case:
  assumes "shape xs = 2 # s" "shape msk = s"
  shows "\<exists>xs' z. EntropySemiring_zero_mask_inplace xs msk = Inr (None, xs')
      \<and> EntropySemiring_zero_inplace xs = Inr z
      \<and> shape xs' = shape xs
      \<and> (\<forall>j idx. j < 2 \<and> valid_index s idx \<longrightarrow>
           elem xs' (j # idx)
             = (if elem msk idx then elem z (j # idx) else elem xs (j # idx))
           \<and> elem z (j # idx) = [NEGINF, 0] ! j)"
  by (simp add: EntropySemiring_zero_mask_inplace_eq [OF assms] EntropySemiring_zero_inplace_def
      EntropySemiring_fill_eq [OF assms(1)] assms)

lemma length_remove_nth: "a < length xs \<Longrightarrow> length (remove_nth a xs) = length xs - 1"
  by (simp add: remove_nth_def)

lemma length_insert_nth [simp]: "length (insert_nth a x xs) = Suc (length xs)"
  by (simp add: insert_nth_def)

lemma remove_nth_insert_nth [simp]: "a \<le> length idx \<Longrightarrow> remove_nth a (insert_nth a j idx) = idx"
  by (simp add: remove_nth_def insert_nth_def)

lemma insert_nth_remove_nth: "a < length idx \<Longrightarrow> insert_nth a (idx ! a) (remove_nth a idx) = idx"
  by (simp add: remove_nth_def insert_nth_def id_take_nth_drop [symmetric])

lemma insert_nth_remove_nth_upd:
  "a < length s \<Longrightarrow> insert_nth a x (remove_nth a s) = s[a := x]"
  by (simp add: remove_nth_def insert_nth_def upd_conv_take_nth_drop)

lemma valid_index_append:
  "length i1 = length s1 \<Longrightarrow>
     valid_index (s1 @ s2) (i1 @ i2) = (valid_index s1 i1 \<and> valid_index s2 i2)"
  by (auto simp: valid_index_def list_all2_append)

lemma valid_index_take: "valid_index s idx \<Longrightarrow> valid_index (take a s) (take a idx)"
  by (simp add: valid_index_def list_all2_takeI)

lemma valid_index_drop: "valid_index s idx \<Longrightarrow> valid_index (drop a s) (drop a idx)"
  by (simp add: valid_index_def list_all2_dropI)

lemma valid_index_insert_nth:
  assumes "a < length s" "valid_index (remove_nth a s) idx" "j < s ! a"
  shows "valid_index s (insert_nth a j idx)"
proof -
  have len: "length idx = length s - 1"
    using valid_index_length [OF assms(2)] assms(1) by (simp add: remove_nth_def)
  have s: "s = take a s @ (s ! a) # drop (Suc a) s"
    using assms(1) by (rule id_take_nth_drop)
  have idx: "valid_index (take a s @ drop (Suc a) s) (take a idx @ drop a idx)"
    using assms(2) by (simp add: remove_nth_def)
  have la: "length (take a idx) = length (take a s)"
    using len assms(1) by simp
  from idx have "valid_index (take a s) (take a idx)" "valid_index (drop (Suc a) s) (drop a idx)"
    using valid_index_append [OF la] by blast+
  then have "valid_index (take a s @ (s ! a) # drop (Suc a) s) (take a idx @ j # drop a idx)"
    using assms(3) la by (simp add: valid_index_append)
  then show ?thesis using s by (simp add: insert_nth_def)
qed

lemma valid_index_remove_nth:
  assumes "valid_index s idx" "a < length s"
  shows "valid_index (remove_nth a s) (remove_nth a idx)"
proof -
  have "valid_index (take a s) (take a idx)" "valid_index (drop (Suc a) s) (drop (Suc a) idx)"
    using assms(1) by (rule valid_index_take, rule valid_index_drop)
  moreover have "length (take a idx) = length (take a s)"
    using valid_index_length [OF assms(1)] by simp
  ultimately show ?thesis
    by (simp add: remove_nth_def valid_index_append)
qed

lemma wrap_dim_nat: "a < n \<Longrightarrow> wrap_dim n (int a) = Inr a"
  by (simp add: wrap_dim_def Let_def)

lemma wrap_dim_neg: "a < n \<Longrightarrow> wrap_dim n (int a - int n) = Inr a"
  by (auto simp add: wrap_dim_def Let_def max_def)

lemma offset_append:
  "length i1 = length s1 \<Longrightarrow>
     offset (s1 @ s2) (i1 @ i2) = offset s1 i1 * prod_list s2 + offset s2 i2"
proof (induction s1 arbitrary: i1)
  case Nil
  then show ?case by simp
next
  case (Cons n s1)
  then obtain i r where i1: "i1 = i # r" and r: "length r = length s1"
    by (cases i1) auto
  show ?case
    using Cons.IH [OF r] by (simp add: i1 algebra_simps)
qed

lemma offset_keepdim:
  assumes "a < length s" "length idx = length s"
  shows "offset (s[a := Suc 0]) (idx[a := 0]) = offset (remove_nth a s) (remove_nth a idx)"
proof -
  have s: "s[a := Suc 0] = take a s @ Suc 0 # drop (Suc a) s"
    using assms(1) by (simp add: upd_conv_take_nth_drop)
  have i: "idx[a := 0] = take a idx @ 0 # drop (Suc a) idx"
    using assms by (simp add: upd_conv_take_nth_drop)
  have la: "length (take a idx) = length (take a s)"
    using assms by simp
  show ?thesis
    unfolding s i remove_nth_def
    by (simp add: offset_append [OF la])
qed

lemma reduce_eq:
  "a < length (shape t) \<Longrightarrow>
     reduce g t a = tabulate (remove_nth a (shape t)) (\<lambda>idx. g (lane t a idx))"
  by (auto simp add: reduce_def)

lemma lane_tabulate:
  assumes "a < length s" "valid_index (remove_nth a s) idx"
  shows "lane (tabulate s G) a idx = map (\<lambda>j. G (insert_nth a j idx)) [0..<s ! a]"
  using assms by (simp add: lane_def valid_index_insert_nth)

lemma torch_logsumexp_eq:
  assumes "shape t = s" "a < length s" "0 < s ! a" "wrap_dim (length s) d = Inr a"
  shows "torch_logsumexp t d
     = Inr (tabulate (remove_nth a s) (\<lambda>idx. logsumexp_list (lane t a idx)))"
  using assms by (auto simp add: torch_logsumexp_def ndim_def reduce_eq)

lemma torch_sum_eq:
  assumes "shape t = s" "a < length s" "wrap_dim (length s) d = Inr a"
  shows "torch_sum t d = Inr (tabulate (remove_nth a s) (\<lambda>idx. sum_list (lane t a idx)))"
  using assms by (auto simp add: torch_sum_def ndim_def reduce_eq)

lemma unsqueeze_keepdim:
  assumes "shape t = remove_nth a s" "a < length s" "wrap_dim (length s) d = Inr a"
  shows "unsqueeze t d = Inr (t\<lparr>shape := s[a := Suc 0]\<rparr>)"
proof -
  have "ndim t + 1 = length s"
    using assms(1,2) by (simp add: ndim_def remove_nth_def)
  then show ?thesis
    using assms by (simp add: unsqueeze_def insert_nth_remove_nth_upd)
qed

lemma binop_same:
  assumes "shape x = s" "shape y = s"
  shows "binop f x y = Inr (tabulate s (\<lambda>idx. f (elem x idx) (elem y idx)))"
proof -
  have "tabulate s (\<lambda>idx. f (elem x (broadcast_index s idx)) (elem y (broadcast_index s idx)))
      = tabulate s (\<lambda>idx. f (elem x idx) (elem y idx))"
    by (rule tabulate_cong) (simp add: broadcast_index_same)
  then show ?thesis by (simp add: binop_def assms)
qed

lemma map2_pick_upd:
  "map2 (\<lambda>x y. if x = 1 then y else x) s (s[a := Suc 0]) = (s :: nat list)"
proof (induction s arbitrary: a)
  case Nil
  show ?case by simp
next
  case (Cons n s)
  show ?case
  proof (cases a)
    case 0
    then show ?thesis by (simp add: map2_pick_same del: One_nat_def)
  next
    case (Suc a')
    then show ?thesis by (simp add: Cons del: One_nat_def)
  qed
qed

lemma list_all2_upd_one:
  "list_all2 (\<lambda>x y. x = y \<or> x = 1 \<or> y = 1) s (s[a := Suc 0])"
proof -
  have "s ! i = s[a := Suc 0] ! i \<or> s ! i = 1 \<or> s[a := Suc 0] ! i = 1" if "i < length s" for i
    using that by (cases "i = a") simp_all
  then show ?thesis by (simp add: list_all2_conv_all_nth)
qed

lemma broadcast_shape_keepdim: "broadcast_shape s (s[a := Suc 0]) = Inr s"
  by (simp add: broadcast_shape_def pad_shape_def map2_pick_upd list_all2_upd_one
      del: One_nat_def)

lemma broadcast_index_keepdim:
  assumes "valid_index s idx" "a < length s"
  shows "broadcast_index (s[a := Suc 0]) idx = idx[a := 0]"
proof -
  have len: "length idx = length s" by (rule valid_index_length [OF assms(1)])
  have "map2 (\<lambda>n i. if n = 1 then 0 else i) (s[a := Suc 0]) idx = idx[a := 0]"
  proof (rule nth_equalityI)
    show "length (map2 (\<lambda>n i. if n = 1 then 0 else i) (s[a := Suc 0]) idx) = length (idx[a := 0])"
      using len by simp
  next
    fix i assume "i < length (map2 (\<lambda>n i. if n = 1 then 0 else i) (s[a := Suc 0]) idx)"
    then have i: "i < length s" using len by simp
    have "idx ! i < s ! i" by (rule valid_index_nth [OF assms(1) i])
    then show "map2 (\<lambda>n i. if n = 1 then 0 else i) (s[a := Suc 0]) idx ! i = idx[a := 0] ! i"
      using i len assms(2) by (cases "i = a") auto
  qed
  then show ?thesis using len by (simp add: broadcast_index_def)
qed

lemma binop_keepdim:
  assumes "shape x = s" "shape p = remove_nth a s" "a < length s"
  shows "binop f x (p\<lparr>shape := s[a := Suc 0]\<rparr>)
     = Inr (tabulate s (\<lambda>idx. f (elem x idx) (elem p (remove_nth a idx))))"
proof -
  let ?up = "p\<lparr>shape := s[a := Suc 0]\<rparr>"
  have "tabulate s (\<lambda>idx. f (elem x (broadcast_index s idx))
                            (elem ?up (broadcast_index (s[a := Suc 0]) idx)))
      = tabulate s (\<lambda>idx. f (elem x idx) (elem p (remove_nth a idx)))"
  proof (rule tabulate_cong)
    fix idx assume v: "valid_index s idx"
    have "elem ?up (idx[a := 0]) = elem p (remove_nth a idx)"
      using offset_keepdim [OF assms(3) valid_index_length [OF v]]
      by (simp add: elem_def assms(2))
    then show "f (elem x (broadcast_index s idx)) (elem ?up (broadcast_index (s[a := Suc 0]) idx))
        = f (elem x idx) (elem p (remove_nth a idx))"
      using v by (simp add: broadcast_index_same broadcast_index_keepdim [OF v assms(3)])
  qed
  then show ?thesis
    by (simp add: binop_def assms(1) broadcast_shape_keepdim)
qed

text \<open>log-softmax of a tensor along an axis, as the three statements
  logsumexp, unsqueeze and subtraction compute it\<close>

lemma log_softmax_steps:
  assumes "shape x = s" "a < length s" "0 < s ! a" "wrap_dim (length s) d = Inr a"
  shows "then_do (torch_logsumexp x d) (\<lambda>part. then_do (unsqueeze part d) (\<lambda>up. tensor_sub x up))
     = Inr (tabulate s (\<lambda>idx. elem x idx - logsumexp_list (lane x a (remove_nth a idx))))"
proof -
  let ?part = "tabulate (remove_nth a s) (\<lambda>idx. logsumexp_list (lane x a idx))"
  have 1: "torch_logsumexp x d = Inr ?part"
    by (rule torch_logsumexp_eq [OF assms])
  have 2: "unsqueeze ?part d = Inr (?part\<lparr>shape := s[a := Suc 0]\<rparr>)"
    by (rule unsqueeze_keepdim [OF _ assms(2,4)]) simp
  have 3: "tensor_sub x (?part\<lparr>shape := s[a := Suc 0]\<rparr>)
      = Inr (tabulate s (\<lambda>idx. elem x idx - elem ?part (remove_nth a idx)))"
    unfolding tensor_sub_def by (rule binop_keepdim [OF assms(1) _ assms(2)]) simp
  have "tabulate s (\<lambda>idx. elem x idx - elem ?part (remove_nth a idx))
      = tabulate s (\<lambda>idx. elem x idx - logsumexp_list (lane x a (remove_nth a idx)))"
    by (rule tabulate_cong) (simp add: valid_index_remove_nth assms(2))
  then show ?thesis by (simp add: 1 2 3)
qed

lemma sum_list_exp_pos: "ps \<noteq> [] \<Longrightarrow> 0 < sum_list (map exp (ps :: real list))"
proof (induction ps)
  case Nil
  then show ?case by simp
next
  case (Cons p ps)
  have "0 \<le> sum_list (map exp ps)"
    by (rule sum_list_nonneg) auto
  moreover have "0 < exp p" by simp
  ultimately show ?case by (simp add: add_pos_nonneg)
qed

lemma exp_sub_logsumexp:
  "ps \<noteq> [] \<Longrightarrow> exp (x - logsumexp_list ps) = exp x / sum_list (map exp ps)"
  by (simp add: logsumexp_list_def exp_diff sum_list_exp_pos)

lemma sum_list_upt_cong:
  "(\<And>j. j < n \<Longrightarrow> f j = g j) \<Longrightarrow> (\<Sum>j\<leftarrow>[0..<n]. f j) = (\<Sum>j\<leftarrow>[0..<n]. (g j :: real))"
  by (rule arg_cong [where f = sum_list]) simp

lemma torch_sum_tabulate:
  assumes "a < length s" "wrap_dim (length s) d = Inr a"
  shows "torch_sum (tabulate s G) d
     = Inr (tabulate (remove_nth a s) (\<lambda>idx. \<Sum>j\<leftarrow>[0..<s ! a]. G (insert_nth a j idx)))"
proof -
  have "tabulate (remove_nth a s) (\<lambda>idx. sum_list (lane (tabulate s G) a idx))
      = tabulate (remove_nth a s) (\<lambda>idx. \<Sum>j\<leftarrow>[0..<s ! a]. G (insert_nth a j idx))"
    by (rule tabulate_cong) (simp add: lane_tabulate [OF assms(1)])
  then show ?thesis
    using torch_sum_eq [OF _ assms, of "tabulate s G"] by simp
qed

lemma select_component:
  "shape xs = n # s \<Longrightarrow> c < n \<Longrightarrow>
     select xs (int c) = Inr (tabulate s (\<lambda>idx. elem xs (c # idx)))"
  by (simp add: select_def wrap_index_def)

lemma lane_component:
  assumes "shape xs = n # s" "a < length s" "valid_index (remove_nth a s) idx"
  shows "lane (tabulate s (\<lambda>idx. elem xs (c # idx))) a idx = component_lane xs c a idx"
  by (simp add: lane_tabulate [OF assms(2,3)] component_lane_def assms(1))

lemma length_component_lane: "shape xs = n # s \<Longrightarrow> length (component_lane xs c a idx) = s ! a"
  by (simp add: component_lane_def)

lemma nth_component_lane:
  "shape xs = n # s \<Longrightarrow> j < s ! a \<Longrightarrow> component_lane xs c a idx ! j = elem xs (c # insert_nth a j idx)"
  by (simp add: component_lane_def)

lemma stack3_eq:
  assumes "shape t0 = s" "shape t1 = s" "shape t2 = s"
  shows "stack [t0, t1, t2] = Inr (tabulate (3 # s) (\<lambda>idx. elem ([t0, t1, t2] ! hd idx) (tl idx)))"
  using assms by (simp add: stack_def numeral_3_eq_3)

lemma expectation_dim:
  assumes "a < length s" "dm = int a + 1 \<or> dm = int a - int (length s)"
  shows "dm \<noteq> 0" "wrap_dim (length s) (if dm > 0 then dm - 1 else dm) = Inr a"
  using assms wrap_dim_nat [of a "length s"] wrap_dim_neg [of a "length s"] by auto

lemma kl_algebra: "st * e - lq * e + lp * e = e * (st + lp - lq)" for e :: real
  by (simp add: algebra_simps)

lemma softmax_nth:
  "ps \<noteq> [] \<Longrightarrow> j < length ps \<Longrightarrow> softmax_list ps ! j = exp (ps ! j - logsumexp_list ps)"
  by (simp add: softmax_list_def exp_sub_logsumexp)

lemma log_softmax_nth:
  "j < length ps \<Longrightarrow> log_softmax_list ps ! j = ps ! j - logsumexp_list ps"
  by (simp add: log_softmax_list_def logsumexp_list_def)

lemma kl_term:
  assumes "P \<noteq> []" "j < length P" "j < length Q"
  shows "st * exp (P ! j - logsumexp_list P) - (Q ! j - logsumexp_list Q) * exp (P ! j - logsumexp_list P)
       + (P ! j - logsumexp_list P) * exp (P ! j - logsumexp_list P)
     = softmax_list P ! j * (st + log_softmax_list P ! j - log_softmax_list Q ! j)"
  unfolding softmax_nth [OF assms(1,2)] log_softmax_nth [OF assms(2)] log_softmax_nth [OF assms(3)]
  by (rule kl_algebra)

lemma KLDivergenceSemiring_sum_eq:
  assumes "shape xs = 3 # s" "a < length s" "0 < s ! a"
    and "dm = int a + 1 \<or> dm = int a - int (length s)"
  shows "KLDivergenceSemiring_sum xs dm
     = Inr (tabulate (3 # remove_nth a s)
         (\<lambda>idx. [logsumexp_list (component_lane xs 0 a (tl idx)),
                 logsumexp_list (component_lane xs 1 a (tl idx)),
                 kl_update (component_lane xs 0 a (tl idx)) (component_lane xs 1 a (tl idx))
                   (component_lane xs 2 a (tl idx))] ! hd idx))"
proof -
  define d where "d = (if dm > 0 then dm - 1 else dm)"
  have dm: "dm \<noteq> 0" and wd: "wrap_dim (length s) d = Inr a"
    using expectation_dim [OF assms(2,4)] by (simp_all add: d_def)
  define x0 where "x0 = tabulate s (\<lambda>idx. elem xs (0 # idx))"
  define x1 where "x1 = tabulate s (\<lambda>idx. elem xs (1 # idx))"
  define x2 where "x2 = tabulate s (\<lambda>idx. elem xs (2 # idx))"
  define part_p where "part_p = tabulate (remove_nth a s) (\<lambda>idx. logsumexp_list (lane x0 a idx))"
  define part_q where "part_q = tabulate (remove_nth a s) (\<lambda>idx. logsumexp_list (lane x1 a idx))"
  define lsp where "lsp = tabulate s (\<lambda>idx. elem x0 idx - elem part_p (remove_nth a idx))"
  define lsq where "lsq = tabulate s (\<lambda>idx. elem x1 idx - elem part_q (remove_nth a idx))"
  define t1 where "t1 = tabulate s (\<lambda>idx. elem x2 idx * elem (tensor_exp lsp) idx)"
  define t2 where "t2 = tabulate s (\<lambda>idx. elem lsq idx * elem (tensor_exp lsp) idx)"
  define t3 where "t3 = tabulate s (\<lambda>idx. elem t1 idx - elem t2 idx)"
  define t4 where "t4 = tabulate s (\<lambda>idx. elem lsp idx * elem (tensor_exp lsp) idx)"
  define G where "G = (\<lambda>idx. elem t3 idx + elem t4 idx)"
  define S where "S = tabulate (remove_nth a s) (\<lambda>idx. \<Sum>j\<leftarrow>[0..<s ! a]. G (insert_nth a j idx))"
  have sh: "shape x0 = s" "shape x1 = s" "shape x2 = s" "shape lsp = s" "shape lsq = s"
    "shape (tensor_exp lsp) = s" "shape t1 = s" "shape t2 = s" "shape t3 = s" "shape t4 = s"
    "shape part_p = remove_nth a s" "shape part_q = remove_nth a s" "shape S = remove_nth a s"
    by (simp_all add: x0_def x1_def x2_def lsp_def lsq_def tensor_exp_def t1_def t2_def t3_def
        t4_def part_p_def part_q_def S_def)
  have sel: "select xs 0 = Inr x0" "select xs 1 = Inr x1" "select xs 2 = Inr x2"
    using select_component [OF assms(1), of 0] select_component [OF assms(1), of 1]
      select_component [OF assms(1), of 2]
    by (simp_all add: x0_def x1_def x2_def)
  have lse: "torch_logsumexp x0 d = Inr part_p" "torch_logsumexp x1 d = Inr part_q"
    unfolding part_p_def part_q_def
    by (rule torch_logsumexp_eq [OF _ assms(2,3) wd], simp add: sh)+
  have unsq: "unsqueeze part_p d = Inr (part_p\<lparr>shape := s[a := Suc 0]\<rparr>)"
    "unsqueeze part_q d = Inr (part_q\<lparr>shape := s[a := Suc 0]\<rparr>)"
    by (rule unsqueeze_keepdim [OF _ assms(2) wd], simp add: sh)+
  have sub: "tensor_sub x0 (part_p\<lparr>shape := s[a := Suc 0]\<rparr>) = Inr lsp"
    "tensor_sub x1 (part_q\<lparr>shape := s[a := Suc 0]\<rparr>) = Inr lsq"
    unfolding tensor_sub_def lsp_def lsq_def
    by (rule binop_keepdim [OF _ _ assms(2)], simp_all add: sh)+
  have ops: "tensor_mul x2 (tensor_exp lsp) = Inr t1" "tensor_mul lsq (tensor_exp lsp) = Inr t2"
    "tensor_sub t1 t2 = Inr t3" "tensor_mul lsp (tensor_exp lsp) = Inr t4"
    "tensor_add t3 t4 = Inr (tabulate s G)"
    unfolding tensor_mul_def tensor_sub_def tensor_add_def t1_def t2_def t3_def t4_def G_def
    by (rule binop_same, simp_all add: sh)+
  have sm: "torch_sum (tabulate s G) d = Inr S"
    unfolding S_def by (rule torch_sum_tabulate [OF assms(2) wd])
  have st: "stack [part_p, part_q, S]
      = Inr (tabulate (3 # remove_nth a s) (\<lambda>idx. elem ([part_p, part_q, S] ! hd idx) (tl idx)))"
    by (rule stack3_eq) (simp_all add: sh)
  have run: "KLDivergenceSemiring_sum xs dm
      = Inr (tabulate (3 # remove_nth a s) (\<lambda>idx. elem ([part_p, part_q, S] ! hd idx) (tl idx)))"
    unfolding KLDivergenceSemiring_sum_def Let_def d_def [symmetric]
    by (simp only: dm if_False sel lse unsq sub ops sm st then_do_Inr)
  have "tabulate (3 # remove_nth a s) (\<lambda>idx. elem ([part_p, part_q, S] ! hd idx) (tl idx))
      = tabulate (3 # remove_nth a s)
         (\<lambda>idx. [logsumexp_list (component_lane xs 0 a (tl idx)),
                 logsumexp_list (component_lane xs 1 a (tl idx)),
                 kl_update (component_lane xs 0 a (tl idx)) (component_lane xs 1 a (tl idx))
                   (component_lane xs 2 a (tl idx))] ! hd idx)"
  proof (rule tabulate_cong)
    fix idx assume "valid_index (3 # remove_nth a s) idx"
    then obtain c r where idx: "idx = c # r" and c: "c < 3" and r: "valid_index (remove_nth a s) r"
      by (auto simp: valid_index_Cons)
    let ?P = "component_lane xs 0 a r" and ?Q = "component_lane xs 1 a r"
    let ?St = "component_lane xs 2 a r"
    have lr: "length r \<ge> a"
      using valid_index_length [OF r] assms(2) by (simp add: remove_nth_def)
    have P: "lane x0 a r = ?P" and Q: "lane x1 a r = ?Q"
      unfolding x0_def x1_def by (rule lane_component [OF assms(1,2) r])+
    have "length ?P = s ! a" "length ?Q = s ! a"
      by (rule length_component_lane [OF assms(1)])+
    then have ne: "?P \<noteq> []" "?Q \<noteq> []"
      using assms(3) by auto
    have p0: "elem part_p r = logsumexp_list ?P"
      using r by (simp add: part_p_def P)
    have p1: "elem part_q r = logsumexp_list ?Q"
      using r by (simp add: part_q_def Q)
    have "G (insert_nth a j r)
        = softmax_list ?P ! j * (?St ! j + log_softmax_list ?P ! j - log_softmax_list ?Q ! j)"
      if j: "j < s ! a" for j
    proof -
      have v: "valid_index s (insert_nth a j r)"
        by (rule valid_index_insert_nth [OF assms(2) r j])
      have jl: "j < length ?P" "j < length ?Q"
        using j by (simp_all add: length_component_lane [OF assms(1)])
      have "G (insert_nth a j r)
          = ?St ! j * exp (?P ! j - logsumexp_list ?P)
            - (?Q ! j - logsumexp_list ?Q) * exp (?P ! j - logsumexp_list ?P)
            + (?P ! j - logsumexp_list ?P) * exp (?P ! j - logsumexp_list ?P)"
        using v lr j by (simp add: G_def t3_def t4_def t1_def t2_def tensor_exp_def lsp_def lsq_def
            x0_def x1_def x2_def p0 p1 nth_component_lane [OF assms(1)])
      also have "\<dots> = softmax_list ?P ! j * (?St ! j + log_softmax_list ?P ! j - log_softmax_list ?Q ! j)"
        by (rule kl_term [OF ne(1) jl])
      finally show ?thesis .
    qed
    then have "(\<Sum>j\<leftarrow>[0..<s ! a]. G (insert_nth a j r))
        = (\<Sum>j\<leftarrow>[0..<s ! a].
             softmax_list ?P ! j * (?St ! j + log_softmax_list ?P ! j - log_softmax_list ?Q ! j))"
      by (rule sum_list_upt_cong)
    then have S: "elem S r = kl_update ?P ?Q ?St"
      using r by (simp add: S_def kl_update_def length_component_lane [OF assms(1)])
    from c have "c = 0 \<or> c = 1 \<or> c = 2" by auto
    then show "elem ([part_p, part_q, S] ! hd idx) (tl idx)
        = [logsumexp_list (component_lane xs 0 a (tl idx)),
           logsumexp_list (component_lane xs 1 a (tl idx)),
           kl_update (component_lane xs 0 a (tl idx)) (component_lane xs 1 a (tl idx))
             (component_lane xs 2 a (tl idx))] ! hd idx"
      by (auto simp: idx p0 p1 S)
  qed
  with run show ?thesis by (simp only:)
qed

lemma ce_term:
  assumes "P \<noteq> []" "j < length P" "j < length Q"
  shows "st * exp (P ! j - logsumexp_list P) - (Q ! j - logsumexp_list Q) * exp (P ! j - logsumexp_list P)
     = softmax_list P ! j * (st - log_softmax_list Q ! j)"
  unfolding softmax_nth [OF assms(1,2)] log_softmax_nth [OF assms(3)]
  by (simp add: algebra_simps)

lemma entropy_term:
  assumes "P \<noteq> []" "j < length P"
  shows "st * exp (P ! j - logsumexp_list P) - (P ! j - logsumexp_list P) * exp (P ! j - logsumexp_list P)
     = softmax_list P ! j * (st - log_softmax_list P ! j)"
  unfolding softmax_nth [OF assms(1,2)] log_softmax_nth [OF assms(2)]
  by (simp add: algebra_simps)

lemma risk_term:
  assumes "P \<noteq> []" "j < length P"
  shows "(c + st) * exp (P ! j - logsumexp_list P) = softmax_list P ! j * (c + st)"
  unfolding softmax_nth [OF assms(1,2)]
  by (simp add: algebra_simps)

lemma stack2_eq:
  assumes "shape t0 = s" "shape t1 = s"
  shows "stack [t0, t1] = Inr (tabulate (2 # s) (\<lambda>idx. elem ([t0, t1] ! hd idx) (tl idx)))"
  using assms by (simp add: stack_def numeral_2_eq_2)

lemma CrossEntropySemiring_sum_eq:
  assumes "shape xs = 3 # s" "a < length s" "0 < s ! a"
    and "dm = int a + 1 \<or> dm = int a - int (length s)"
  shows "CrossEntropySemiring_sum xs dm
     = Inr (tabulate (3 # remove_nth a s)
         (\<lambda>idx. [logsumexp_list (component_lane xs 0 a (tl idx)),
                 logsumexp_list (component_lane xs 1 a (tl idx)),
                 cross_entropy_update (component_lane xs 0 a (tl idx))
                   (component_lane xs 1 a (tl idx)) (component_lane xs 2 a (tl idx))] ! hd idx))"
proof -
  define d where "d = (if dm > 0 then dm - 1 else dm)"
  have dm: "dm \<noteq> 0" and wd: "wrap_dim (length s) d = Inr a"
    using expectation_dim [OF assms(2,4)] by (simp_all add: d_def)
  define x0 where "x0 = tabulate s (\<lambda>idx. elem xs (0 # idx))"
  define x1 where "x1 = tabulate s (\<lambda>idx. elem xs (1 # idx))"
  define x2 where "x2 = tabulate s (\<lambda>idx. elem xs (2 # idx))"
  define part_p where "part_p = tabulate (remove_nth a s) (\<lambda>idx. logsumexp_list (lane x0 a idx))"
  define part_q where "part_q = tabulate (remove_nth a s) (\<lambda>idx. logsumexp_list (lane x1 a idx))"
  define lsp where "lsp = tabulate s (\<lambda>idx. elem x0 idx - elem part_p (remove_nth a idx))"
  define lsq where "lsq = tabulate s (\<lambda>idx. elem x1 idx - elem part_q (remove_nth a idx))"
  define t1 where "t1 = tabulate s (\<lambda>idx. elem x2 idx * elem (tensor_exp lsp) idx)"
  define t2 where "t2 = tabulate s (\<lambda>idx. elem lsq idx * elem (tensor_exp lsp) idx)"
  define G where "G = (\<lambda>idx. elem t1 idx - elem t2 idx)"
  define S where "S = tabulate (remove_nth a s) (\<lambda>idx. \<Sum>j\<leftarrow>[0..<s ! a]. G (insert_nth a j idx))"
  have sh: "shape x0 = s" "shape x1 = s" "shape x2 = s" "shape lsp = s" "shape lsq = s"
    "shape (tensor_exp lsp) = s" "shape t1 = s" "shape t2 = s"
    "shape part_p = remove_nth a s" "shape part_q = remove_nth a s" "shape S = remove_nth a s"
    by (simp_all add: x0_def x1_def x2_def lsp_def lsq_def tensor_exp_def t1_def t2_def
        part_p_def part_q_def S_def)
  have sel: "select xs 0 = Inr x0" "select xs 1 = Inr x1" "select xs 2 = Inr x2"
    using select_component [OF assms(1), of 0] select_component [OF assms(1), of 1]
      select_component [OF assms(1), of 2]
    by (simp_all add: x0_def x1_def x2_def)
  have lse: "torch_logsumexp x0 d = Inr part_p" "torch_logsumexp x1 d = Inr part_q"
    unfolding part_p_def part_q_def
    by (rule torch_logsumexp_eq [OF _ assms(2,3) wd], simp add: sh)+
  have unsq: "unsqueeze part_p d = Inr (part_p\<lparr>shape := s[a := Suc 0]\<rparr>)"
    "unsqueeze part_q d = Inr (part_q\<lparr>shape := s[a := Suc 0]\<rparr>)"
    by (rule unsqueeze_keepdim [OF _ assms(2) wd], simp add: sh)+
  have sub: "tensor_sub x0 (part_p\<lparr>shape := s[a := Suc 0]\<rparr>) = Inr lsp"
    "tensor_sub x1 (part_q\<lparr>shape := s[a := Suc 0]\<rparr>) = Inr lsq"
    unfolding tensor_sub_def lsp_def lsq_def
    by (rule binop_keepdim [OF _ _ assms(2)], simp_all add: sh)+
  have ops: "tensor_mul x2 (tensor_exp lsp) = Inr t1" "tensor_mul lsq (tensor_exp lsp) = Inr t2"
    "tensor_sub t1 t2 = Inr (tabulate s G)"
    unfolding tensor_mul_def tensor_sub_def t1_def t2_def G_def
    by (rule binop_same, simp_all add: sh)+
  have sm: "torch_sum (tabulate s G) d = Inr S"
    unfolding S_def by (rule torch_sum_tabulate [OF assms(2) wd])
  have st: "stack [part_p, part_q, S]
      = Inr (tabulate (3 # remove_nth a s) (\<lambda>idx. elem ([part_p, part_q, S] ! hd idx) (tl idx)))"
    by (rule stack3_eq) (simp_all add: sh)
  have run: "CrossEntropySemiring_sum xs dm
      = Inr (tabulate (3 # remove_nth a s) (\<lambda>idx. elem ([part_p, part_q, S] ! hd idx) (tl idx)))"
    unfolding CrossEntropySemiring_sum_def Let_def d_def [symmetric]
    by (simp only: dm if_False sel lse unsq sub ops sm st then_do_Inr)
  have "tabulate (3 # remove_nth a s) (\<lambda>idx. elem ([part_p, part_q, S] ! hd idx) (tl idx))
      = tabulate (3 # remove_nth a s)
         (\<lambda>idx. [logsumexp_list (component_lane xs 0 a (tl idx)),
                 logsumexp_list (component_lane xs 1 a (tl idx)),
                 cross_entropy_update (component_lane xs 0 a (tl idx))
                   (component_lane xs 1 a (tl idx)) (component_lane xs 2 a (tl idx))] ! hd idx)"
  proof (rule tabulate_cong)
    fix idx assume "valid_index (3 # remove_nth a s) idx"
    then obtain c r where idx: "idx = c # r" and c: "c < 3" and r: "valid_index (remove_nth a s) r"
      by (auto simp: valid_index_Cons)
    let ?P = "component_lane xs 0 a r" and ?Q = "component_lane xs 1 a r"
    let ?St = "component_lane xs 2 a r"
    have lr: "length r \<ge> a"
      using valid_index_length [OF r] assms(2) by (simp add: remove_nth_def)
    have P: "lane x0 a r = ?P" and Q: "lane x1 a r = ?Q"
      unfolding x0_def x1_def by (rule lane_component [OF assms(1,2) r])+
    have "length ?P = s ! a" "length ?Q = s ! a"
      by (rule length_component_lane [OF assms(1)])+
    then have ne: "?P \<noteq> []" "?Q \<noteq> []"
      using assms(3) by auto
    have p0: "elem part_p r = logsumexp_list ?P"
      using r by (simp add: part_p_def P)
    have p1: "elem part_q r = logsumexp_list ?Q"
      using r by (simp add: part_q_def Q)
    have "G (insert_nth a j r) = softmax_list ?P ! j * (?St ! j - log_softmax_list ?Q ! j)"
      if j: "j < s ! a" for j
    proof -
      have v: "valid_index s (insert_nth a j r)"
        by (rule valid_index_insert_nth [OF assms(2) r j])
      have jl: "j < length ?P" "j < length ?Q"
        using j by (simp_all add: length_component_lane [OF assms(1)])
      have "G (insert_nth a j r)
          = ?St ! j * exp (?P ! j - logsumexp_list ?P)
            - (?Q ! j - logsumexp_list ?Q) * exp (?P ! j - logsumexp_list ?P)"
        using v lr j by (simp add: G_def t1_def t2_def tensor_exp_def lsp_def lsq_def
            x0_def x1_def x2_def p0 p1 nth_component_lane [OF assms(1)])
      also have "\<dots> = softmax_list ?P ! j * (?St ! j - log_softmax_list ?Q ! j)"
        by (rule ce_term [OF ne(1) jl])
      finally show ?thesis .
    qed
    then have "(\<Sum>j\<leftarrow>[0..<s ! a]. G (insert_nth a j r))
        = (\<Sum>j\<leftarrow>[0..<s ! a]. softmax_list ?P ! j * (?St ! j - log_softmax_list ?Q ! j))"
      by (rule sum_list_upt_cong)
    then have S: "elem S r = cross_entropy_update ?P ?Q ?St"
      using r by (simp add: S_def cross_entropy_update_def length_component_lane [OF assms(1)])
    from c have "c = 0 \<or> c = 1 \<or> c = 2" by auto
    then show "elem ([part_p, part_q, S] ! hd idx) (tl idx)
        = [logsumexp_list (component_lane xs 0 a (tl idx)),
           logsumexp_list (component_lane xs 1 a (tl idx)),
           cross_entropy_update (component_lane xs 0 a (tl idx))
             (component_lane xs 1 a (tl idx)) (component_lane xs 2 a (tl idx))] ! hd idx"
      by (auto simp: idx p0 p1 S)
  qed
  with run show ?thesis by (simp only:)
qed

lemma EntropySemiring_sum_eq:
  assumes "shape xs = 2 # s" "a < length s" "0 < s ! a"
    and "dm = int a + 1 \<or> dm = int a - int (length s)"
  shows "EntropySemiring_sum xs dm
     = Inr (tabulate (2 # remove_nth a s)
         (\<lambda>idx. [logsumexp_list (component_lane xs 0 a (tl idx)),
                 entropy_update (component_lane xs 0 a (tl idx))
                   (component_lane xs 1 a (tl idx))] ! hd idx))"
proof -
  define d where "d = (if dm > 0 then dm - 1 else dm)"
  have dm: "dm \<noteq> 0" and wd: "wrap_dim (length s) d = Inr a"
    using expectation_dim [OF assms(2,4)] by (simp_all add: d_def)
  define x0 where "x0 = tabulate s (\<lambda>idx. elem xs (0 # idx))"
  define x1 where "x1 = tabulate s (\<lambda>idx. elem xs (1 # idx))"
  define part where "part = tabulate (remove_nth a s) (\<lambda>idx. logsumexp_list (lane x0 a idx))"
  define lsm where "lsm = tabulate s (\<lambda>idx. elem x0 idx - elem part (remove_nth a idx))"
  define t1 where "t1 = tabulate s (\<lambda>idx. elem x1 idx * elem (tensor_exp lsm) idx)"
  define t2 where "t2 = tabulate s (\<lambda>idx. elem lsm idx * elem (tensor_exp lsm) idx)"
  define G where "G = (\<lambda>idx. elem t1 idx - elem t2 idx)"
  define S where "S = tabulate (remove_nth a s) (\<lambda>idx. \<Sum>j\<leftarrow>[0..<s ! a]. G (insert_nth a j idx))"
  have sh: "shape x0 = s" "shape x1 = s" "shape lsm = s"
    "shape (tensor_exp lsm) = s" "shape t1 = s" "shape t2 = s"
    "shape part = remove_nth a s" "shape S = remove_nth a s"
    by (simp_all add: x0_def x1_def lsm_def tensor_exp_def t1_def t2_def part_def S_def)
  have sel: "select xs 0 = Inr x0" "select xs 1 = Inr x1"
    using select_component [OF assms(1), of 0] select_component [OF assms(1), of 1]
    by (simp_all add: x0_def x1_def)
  have lse: "torch_logsumexp x0 d = Inr part"
    unfolding part_def
    by (rule torch_logsumexp_eq [OF _ assms(2,3) wd], simp add: sh)
  have unsq: "unsqueeze part d = Inr (part\<lparr>shape := s[a := Suc 0]\<rparr>)"
    by (rule unsqueeze_keepdim [OF _ assms(2) wd], simp add: sh)
  have sub: "tensor_sub x0 (part\<lparr>shape := s[a := Suc 0]\<rparr>) = Inr lsm"
    unfolding tensor_sub_def lsm_def
    by (rule binop_keepdim [OF _ _ assms(2)], simp_all add: sh)
  have ops: "tensor_mul x1 (tensor_exp lsm) = Inr t1" "tensor_mul lsm (tensor_exp lsm) = Inr t2"
    "tensor_sub t1 t2 = Inr (tabulate s G)"
    unfolding tensor_mul_def tensor_sub_def t1_def t2_def G_def
    by (rule binop_same, simp_all add: sh)+
  have sm: "torch_sum (tabulate s G) d = Inr S"
    unfolding S_def by (rule torch_sum_tabulate [OF assms(2) wd])
  have st: "stack [part, S]
      = Inr (tabulate (2 # remove_nth a s) (\<lambda>idx. elem ([part, S] ! hd idx) (tl idx)))"
    by (rule stack2_eq) (simp_all add: sh)
  have run: "EntropySemiring_sum xs dm
      = Inr (tabulate (2 # remove_nth a s) (\<lambda>idx. elem ([part, S] ! hd idx) (tl idx)))"
    unfolding EntropySemiring_sum_def Let_def d_def [symmetric]
    by (simp only: dm if_False sel lse unsq sub ops sm st then_do_Inr)
  have "tabulate (2 # remove_nth a s) (\<lambda>idx. elem ([part, S] ! hd idx) (tl idx))
      = tabulate (2 # remove_nth a s)
         (\<lambda>idx. [logsumexp_list (component_lane xs 0 a (tl idx)),
                 entropy_update (component_lane xs 0 a (tl idx))
                   (component_lane xs 1 a (tl idx))] ! hd idx)"
  proof (rule tabulate_cong)
    fix idx assume "valid_index (2 # remove_nth a s) idx"
    then obtain c r where idx: "idx = c # r" and c: "c < 2" and r: "valid_index (remove_nth a s) r"
      by (auto simp: valid_index_Cons)
    let ?P = "component_lane xs 0 a r" and ?St = "component_lane xs 1 a r"
    have lr: "length r \<ge> a"
      using valid_index_length [OF r] assms(2) by (simp add: remove_nth_def)
    have P: "lane x0 a r = ?P"
      unfolding x0_def by (rule lane_component [OF assms(1,2) r])
    have "length ?P = s ! a"
      by (rule length_component_lane [OF assms(1)])
    then have ne: "?P \<noteq> []"
      using assms(3) by auto
    have p0: "elem part r = logsumexp_list ?P"
      using r by (simp add: part_def P)
    have "G (insert_nth a j r) = softmax_list ?P ! j * (?St ! j - log_softmax_list ?P ! j)"
      if j: "j < s ! a" for j
    proof -
      have v: "valid_index s (insert_nth a j r)"
        by (rule valid_index_insert_nth [OF assms(2) r j])
      have jl: "j < length ?P"
        using j by (simp_all add: length_component_lane [OF assms(1)])
      have "G (insert_nth a j r)
          = ?St ! j * exp (?P ! j - logsumexp_list ?P)
            - (?P ! j - logsumexp_list ?P) * exp (?P ! j - logsumexp_list ?P)"
        using v lr j by (simp add: G_def t1_def t2_def tensor_exp_def lsm_def
            x0_def x1_def p0 nth_component_lane [OF assms(1)])
      also have "\<dots> = softmax_list ?P ! j * (?St ! j - log_softmax_list ?P ! j)"
        by (rule entropy_term [OF ne jl])
      finally show ?thesis .
    qed
    then have "(\<Sum>j\<leftarrow>[0..<s ! a]. G (insert_nth a j r))
        = (\<Sum>j\<leftarrow>[0..<s ! a]. softmax_list ?P ! j * (?St ! j - log_softmax_list ?P ! j))"
      by (rule sum_list_upt_cong)
    then have S: "elem S r = entropy_update ?P ?St"
      using r by (simp add: S_def entropy_update_def length_component_lane [OF assms(1)])
    from c have "c = 0 \<or> c = 1" by auto
    then show "elem ([part, S] ! hd idx) (tl idx)
        = [logsumexp_list (component_lane xs 0 a (tl idx)),
           entropy_update (component_lane xs 0 a (tl idx))
             (component_lane xs 1 a (tl idx))] ! hd idx"
      by (auto simp: idx p0 S)
  qed
  with run show ?thesis by (simp only:)
qed

lemma RiskSemiring_sum_eq:
  assumes "shape xs = 3 # s" "a < length s" "0 < s ! a"
    and "dm = int a + 1 \<or> dm = int a - int (length s)"
  shows "RiskSemiring_sum xs dm
     = Inr (tabulate (3 # remove_nth a s)
         (\<lambda>idx. [logsumexp_list (component_lane xs 0 a (tl idx)),
                 0,
                 risk_update (component_lane xs 0 a (tl idx)) (component_lane xs 1 a (tl idx))
                   (component_lane xs 2 a (tl idx))] ! hd idx))"
proof -
  define d where "d = (if dm > 0 then dm - 1 else dm)"
  have dm: "dm \<noteq> 0" and wd: "wrap_dim (length s) d = Inr a"
    using expectation_dim [OF assms(2,4)] by (simp_all add: d_def)
  define x0 where "x0 = tabulate s (\<lambda>idx. elem xs (0 # idx))"
  define x1 where "x1 = tabulate s (\<lambda>idx. elem xs (1 # idx))"
  define x2 where "x2 = tabulate s (\<lambda>idx. elem xs (2 # idx))"
  define part_p where "part_p = tabulate (remove_nth a s) (\<lambda>idx. logsumexp_list (lane x0 a idx))"
  define lsp where "lsp = tabulate s (\<lambda>idx. elem x0 idx - elem part_p (remove_nth a idx))"
  define t1 where "t1 = tabulate s (\<lambda>idx. elem x1 idx + elem x2 idx)"
  define G where "G = (\<lambda>idx. elem t1 idx * elem (tensor_exp lsp) idx)"
  define S where "S = tabulate (remove_nth a s) (\<lambda>idx. \<Sum>j\<leftarrow>[0..<s ! a]. G (insert_nth a j idx))"
  have sh: "shape x0 = s" "shape x1 = s" "shape x2 = s" "shape lsp = s"
    "shape (tensor_exp lsp) = s" "shape t1 = s"
    "shape part_p = remove_nth a s" "shape (zeros_like part_p) = remove_nth a s"
    "shape S = remove_nth a s"
    by (simp_all add: x0_def x1_def x2_def lsp_def tensor_exp_def t1_def
        part_p_def S_def zeros_like_def zeros_def)
  have sel: "select xs 0 = Inr x0" "select xs 1 = Inr x1" "select xs 2 = Inr x2"
    using select_component [OF assms(1), of 0] select_component [OF assms(1), of 1]
      select_component [OF assms(1), of 2]
    by (simp_all add: x0_def x1_def x2_def)
  have lse: "torch_logsumexp x0 d = Inr part_p"
    unfolding part_p_def
    by (rule torch_logsumexp_eq [OF _ assms(2,3) wd], simp add: sh)
  have unsq: "unsqueeze part_p d = Inr (part_p\<lparr>shape := s[a := Suc 0]\<rparr>)"
    by (rule unsqueeze_keepdim [OF _ assms(2) wd], simp add: sh)
  have sub: "tensor_sub x0 (part_p\<lparr>shape := s[a := Suc 0]\<rparr>) = Inr lsp"
    unfolding tensor_sub_def lsp_def
    by (rule binop_keepdim [OF _ _ assms(2)], simp_all add: sh)
  have ops: "tensor_add x1 x2 = Inr t1" "tensor_mul t1 (tensor_exp lsp) = Inr (tabulate s G)"
    unfolding tensor_mul_def tensor_add_def t1_def G_def
    by (rule binop_same, simp_all add: sh)+
  have sm: "torch_sum (tabulate s G) d = Inr S"
    unfolding S_def by (rule torch_sum_tabulate [OF assms(2) wd])
  have st: "stack [part_p, zeros_like part_p, S]
      = Inr (tabulate (3 # remove_nth a s)
               (\<lambda>idx. elem ([part_p, zeros_like part_p, S] ! hd idx) (tl idx)))"
    by (rule stack3_eq) (simp_all add: sh)
  have run: "RiskSemiring_sum xs dm
      = Inr (tabulate (3 # remove_nth a s)
               (\<lambda>idx. elem ([part_p, zeros_like part_p, S] ! hd idx) (tl idx)))"
    unfolding RiskSemiring_sum_def Let_def d_def [symmetric]
    by (simp only: dm if_False sel lse unsq sub ops sm st then_do_Inr)
  have "tabulate (3 # remove_nth a s) (\<lambda>idx. elem ([part_p, zeros_like part_p, S] ! hd idx) (tl idx))
      = tabulate (3 # remove_nth a s)
         (\<lambda>idx. [logsumexp_list (component_lane xs 0 a (tl idx)),
                 0,
                 risk_update (component_lane xs 0 a (tl idx)) (component_lane xs 1 a (tl idx))
                   (component_lane xs 2 a (tl idx))] ! hd idx)"
  proof (rule tabulate_cong)
    fix idx assume "valid_index (3 # remove_nth a s) idx"
    then obtain c r where idx: "idx = c # r" and c: "c < 3" and r: "valid_index (remove_nth a s) r"
      by (auto simp: valid_index_Cons)
    let ?P = "component_lane xs 0 a r" and ?C = "component_lane xs 1 a r"
    let ?St = "component_lane xs 2 a r"
    have lr: "length r \<ge> a"
      using valid_index_length [OF r] assms(2) by (simp add: remove_nth_def)
    have P: "lane x0 a r = ?P"
      unfolding x0_def by (rule lane_component [OF assms(1,2) r])
    have "length ?P = s ! a"
      by (rule length_component_lane [OF assms(1)])
    then have ne: "?P \<noteq> []"
      using assms(3) by auto
    have p0: "elem part_p r = logsumexp_list ?P"
      using r by (simp add: part_p_def P)
    have z: "elem (zeros_like part_p) r = 0"
      using r by (simp add: zeros_like_def zeros_def sh)
    have "G (insert_nth a j r) = softmax_list ?P ! j * (?C ! j + ?St ! j)"
      if j: "j < s ! a" for j
    proof -
      have v: "valid_index s (insert_nth a j r)"
        by (rule valid_index_insert_nth [OF assms(2) r j])
      have jl: "j < length ?P"
        using j by (simp_all add: length_component_lane [OF assms(1)])
      have "G (insert_nth a j r) = (?C ! j + ?St ! j) * exp (?P ! j - logsumexp_list ?P)"
        using v lr j by (simp add: G_def t1_def tensor_exp_def lsp_def
            x0_def x1_def x2_def p0 nth_component_lane [OF assms(1)])
      also have "\<dots> = softmax_list ?P ! j * (?C ! j + ?St ! j)"
        by (rule risk_term [OF ne jl])
      finally show ?thesis .
    qed
    then have "(\<Sum>j\<leftarrow>[0..<s ! a]. G (insert_nth a j r))
        = (\<Sum>j\<leftarrow>[0..<s ! a]. softmax_list ?P ! j * (?C ! j + ?St ! j))"
      by (rule sum_list_upt_cong)
    then have S: "elem S r = risk_update ?P ?C ?St"
      using r by (simp add: S_def risk_update_def length_component_lane [OF assms(1)])
    from c have "c = 0 \<or> c = 1 \<or> c = 2" by auto
    then show "elem ([part_p, zeros_like part_p, S] ! hd idx) (tl idx)
        = [logsumexp_list (component_lane xs 0 a (tl idx)),
           0,
           risk_update (component_lane xs 0 a (tl idx)) (component_lane xs 1 a (tl idx))
             (component_lane xs 2 a (tl idx))] ! hd idx"
      by (auto simp: idx p0 z S)
  qed
  with run show ?thesis by (simp only:)
qed

lemma view_eq: "prod_list s' = prod_list (shape t) \<Longrightarrow> view t s' = Inr (t\<lparr>shape := s'\<rparr>)"
  by (simp add: view_def)

lemma elem_reshape: "elem (t\<lparr>shape := s'\<rparr>) idx = data t ! offset s' idx"
  by (simp add: elem_def)

lemma divmod_blocks:
  "0 < k \<Longrightarrow> map (\<lambda>m. f (m div k) (m mod k)) [0..<n * k]
     = concat (map (\<lambda>i. map (f i) [0..<k]) [0..<n])"
proof (induction n)
  case 0
  show ?case by simp
next
  case (Suc n)
  have "[0..<Suc n * k] = [0..<n * k] @ [n * k..<n * k + k]"
    using upt_add_eq_append [of 0 "n * k" k] by (simp add: add.commute)
  moreover have "[n * k..<n * k + k] = map (\<lambda>j. j + n * k) [0..<k]"
    using map_add_upt [of "n * k" k] by (simp add: add.commute)
  moreover have "map (\<lambda>m. f (m div k) (m mod k)) (map (\<lambda>j. j + n * k) [0..<k]) = map (f n) [0..<k]"
    using Suc.prems by simp
  ultimately show ?case
    using Suc by simp
qed

lemma length_topk_list: "k \<le> length xs \<Longrightarrow> length (topk_list k xs) = k"
  by (simp add: topk_list_def)

lemma sorted_topk_list: "sorted (rev (topk_list k xs))"
proof -
  have "rev (take k (rev (sort xs))) = drop (length xs - k) (sort xs)"
    by (simp add: rev_take)
  then show ?thesis
    by (simp add: topk_list_def sorted_wrt_drop)
qed

lemma mset_topk_split:
  "mset (topk_list k xs) + mset (drop k (rev (sort xs))) = mset xs"
proof -
  let ?zs = "rev (sort xs)"
  have "mset (take k ?zs) + mset (drop k ?zs) = mset (take k ?zs @ drop k ?zs)"
    by (simp only: mset_append)
  also have "\<dots> = mset ?zs"
    by (simp only: append_take_drop_id)
  also have "\<dots> = mset xs"
    by simp
  finally show ?thesis by (simp only: topk_list_def)
qed

lemma topk_list_rest_le:
  assumes "x \<in> set (drop k (rev (sort xs)))" "y \<in> set (topk_list k xs)"
  shows "x \<le> y"
proof -
  let ?zs = "rev (sort xs)"
  have "sorted_wrt (\<lambda>u v. v \<le> u) ?zs"
    using sorted_sort [of xs] by (simp add: sorted_wrt_rev)
  then have "sorted_wrt (\<lambda>u v. v \<le> u) (take k ?zs @ drop k ?zs)"
    by simp
  then show ?thesis
    using assms unfolding sorted_wrt_append topk_list_def by blast
qed

lemma is_k_largest_topk_list:
  assumes "k \<le> length xs"
  shows "is_k_largest k xs (topk_list k xs)"
proof -
  have sub: "mset xs - mset (topk_list k xs) = mset (drop k (rev (sort xs)))"
    using mset_topk_split [of k xs] by (metis add_diff_cancel_left')
  have "mset (topk_list k xs) \<subseteq># mset xs"
    using mset_topk_split [of k xs] by (metis mset_subset_eq_add_left)
  then show ?thesis
    using assms topk_list_rest_le [of _ k xs]
    by (simp add: is_k_largest_def length_topk_list sorted_topk_list sub)
qed

lemma broadcast_shape_outer:
  "broadcast_shape (k # Suc 0 # s) (Suc 0 # k # s) = Inr (k # k # s)"
  by (simp add: broadcast_shape_def pad_shape_def list_all2_same map2_pick_same del: One_nat_def)

lemma broadcast_index_outer:
  assumes "valid_index s r" "i < k"
  shows "broadcast_index (k # Suc 0 # s) (i # j # r) = i # 0 # r"
    "broadcast_index (Suc 0 # k # s) (i # j # r) = 0 # (if k = 1 then 0 else j) # r"
  using broadcast_index_same [OF assms(1)] valid_index_length [OF assms(1)] assms(2)
  by (auto simp add: broadcast_index_def)

lemma topk_dim0_eq:
  assumes "shape t = n # s" "k \<le> n"
  shows "torch_topk_values t k 0
     = Inr (tabulate (k # s) (\<lambda>idx. topk_list k (map (\<lambda>m. elem t (m # tl idx)) [0..<n]) ! hd idx))"
proof -
  have "tabulate (k # s) (\<lambda>idx. topk_list k (lane t 0 (remove_nth 0 idx)) ! (idx ! 0))
      = tabulate (k # s) (\<lambda>idx. topk_list k (map (\<lambda>m. elem t (m # tl idx)) [0..<n]) ! hd idx)"
  proof (rule tabulate_cong)
    fix idx assume "valid_index (k # s) idx"
    then obtain l r where idx: "idx = l # r" by (auto simp: valid_index_Cons)
    show "topk_list k (lane t 0 (remove_nth 0 idx)) ! (idx ! 0)
        = topk_list k (map (\<lambda>m. elem t (m # tl idx)) [0..<n]) ! hd idx"
      by (simp add: idx lane_def remove_nth_def insert_nth_def assms(1))
  qed
  then show ?thesis
    using assms by (simp add: torch_topk_values_def ndim_def)
qed

lemma offset_two_leading:
  "offset (k # k # s) (i # j # r) = (i * k + j) * prod_list s + offset s r"
  by (simp add: algebra_simps)

lemma KMaxSemiring_mul_eq:
  assumes "shape a = k # s" "shape b = k # s" "0 < k"
  shows "KMaxSemiring_mul k a b
     = Inr (tabulate (k # s) (\<lambda>idx. topk_list k (pairwise_sums a b k (tl idx)) ! hd idx))"
proof -
  define a' where "a' = a\<lparr>shape := k # Suc 0 # s\<rparr>"
  define b' where "b' = b\<lparr>shape := Suc 0 # k # s\<rparr>"
  define c where "c = tabulate (k # k # s)
      (\<lambda>idx. elem a' (broadcast_index (k # Suc 0 # s) idx)
           + elem b' (broadcast_index (Suc 0 # k # s) idx))"
  define c' where "c' = c\<lparr>shape := (k * k) # s\<rparr>"
  have va: "view a (k # 1 # tl (shape a)) = Inr a'"
    using assms(1) by (simp add: view_def a'_def)
  have vb: "view b (1 # k # tl (shape b)) = Inr b'"
    using assms(2) by (simp add: view_def b'_def)
  have add: "tensor_add a' b' = Inr c"
    by (simp add: tensor_add_def binop_def a'_def b'_def broadcast_shape_outer c_def)
  have vc: "view c ((k * k) # drop 2 (shape c)) = Inr c'"
    by (simp add: view_def c_def c'_def)
  have tk: "torch_topk_values c' k 0
      = Inr (tabulate (k # s)
          (\<lambda>idx. topk_list k (map (\<lambda>m. elem c' (m # tl idx)) [0..<k * k]) ! hd idx))"
  proof (rule topk_dim0_eq)
    show "shape c' = (k * k) # s" by (simp add: c'_def)
    show "k \<le> k * k" using assms(3) by (cases k) simp_all
  qed
  have run: "KMaxSemiring_mul k a b
      = Inr (tabulate (k # s)
          (\<lambda>idx. topk_list k (map (\<lambda>m. elem c' (m # tl idx)) [0..<k * k]) ! hd idx))"
    unfolding KMaxSemiring_mul_def
    by (simp only: va vb add vc tk then_do_Inr shape_tabulate list.sel refl if_True)
  have "tabulate (k # s)
          (\<lambda>idx. topk_list k (map (\<lambda>m. elem c' (m # tl idx)) [0..<k * k]) ! hd idx)
      = tabulate (k # s) (\<lambda>idx. topk_list k (pairwise_sums a b k (tl idx)) ! hd idx)"
  proof (rule tabulate_cong)
    fix idx assume "valid_index (k # s) idx"
    then obtain l r where idx: "idx = l # r" and r: "valid_index s r"
      by (auto simp: valid_index_Cons)
    have len: "length r = length s" by (rule valid_index_length [OF r])
    have e: "elem c' (m # r) = elem a ((m div k) # r) + elem b ((m mod k) # r)"
      if m: "m < k * k" for m
    proof -
      have i: "m div k < k" using m assms(3) by (simp add: less_mult_imp_div_less)
      have j: "m mod k < k" using assms(3) by simp
      have v: "valid_index (k # k # s) ((m div k) # (m mod k) # r)"
        using i j r by simp
      have "elem c' (m # r) = data c ! (m * prod_list s + offset s r)"
        by (simp add: c'_def elem_def)
      also have "m * prod_list s + offset s r
          = offset (k # k # s) ((m div k) # (m mod k) # r)"
      proof -
        have m': "m div k * k + m mod k = m" by (rule div_mult_mod_eq)
        show ?thesis
          using offset_two_leading [of k s "m div k" "m mod k" r] by (simp only: m')
      qed
      also have "data c ! offset (k # k # s) ((m div k) # (m mod k) # r)
          = elem c ((m div k) # (m mod k) # r)"
        by (simp add: elem_def c_def)
      also have "\<dots> = elem a' ((m div k) # 0 # r) + elem b' (0 # (m mod k) # r)"
        using v j by (simp add: c_def broadcast_index_outer [OF r i])
      also have "\<dots> = elem a ((m div k) # r) + elem b ((m mod k) # r)"
        by (simp add: a'_def b'_def elem_def assms(1,2))
      finally show ?thesis .
    qed
    have "map (\<lambda>m. elem c' (m # r)) [0..<k * k]
        = map (\<lambda>m. elem a ((m div k) # r) + elem b ((m mod k) # r)) [0..<k * k]"
      using e by simp
    also have "\<dots> = pairwise_sums a b k r"
      unfolding pairwise_sums_def
      by (rule divmod_blocks [OF assms(3), of "\<lambda>i j. elem a (i # r) + elem b (j # r)" k])
    finally show "topk_list k (map (\<lambda>m. elem c' (m # tl idx)) [0..<k * k]) ! hd idx
        = topk_list k (pairwise_sums a b k (tl idx)) ! hd idx"
      by (simp add: idx)
  qed
  with run show ?thesis by (simp only:)
qed

lemma length_pairwise_sums: "length (pairwise_sums a b k r) = k * k"
  by (simp add: pairwise_sums_def length_concat comp_def sum_list_triv)

lemma column_tabulate_nth:
  assumes "valid_index s r" "length (f r) = k"
  shows "column (tabulate (k # s) (\<lambda>idx. f (tl idx) ! hd idx)) k r = f r"
proof -
  have "column (tabulate (k # s) (\<lambda>idx. f (tl idx) ! hd idx)) k r = map ((!) (f r)) [0..<k]"
    using assms(1) by (simp add: column_def)
  also have "\<dots> = f r"
    using assms(2) map_nth [of "f r"] by simp
  finally show ?thesis .
qed

lemma topk_list_prefix:
  assumes "sorted (rev ys)" "\<forall>x\<in>set rest. \<forall>y\<in>set ys. x \<le> y"
  shows "topk_list (length ys) (ys @ rest) = ys"
proof -
  have "sorted (sort rest @ rev ys)"
    using assms by (auto simp: sorted_append)
  moreover have "mset (sort rest @ rev ys) = mset (ys @ rest)"
    by simp
  ultimately have "sort (ys @ rest) = sort rest @ rev ys"
    by (metis properties_for_sort)
  then show ?thesis by (simp add: topk_list_def)
qed

lemma KMaxSemiring_one_inplace_eq:
  assumes "shape x = k # s" "0 < k"
  shows "KMaxSemiring_one_inplace k x
     = Inr (tabulate (k # s) (\<lambda>idx. if hd idx = 0 then 0 else NEGINF))"
proof -
  have "tabulate (k # s) (\<lambda>idx. if hd idx = 0 then 0 else elem (tabulate (k # s) (\<lambda>_. NEGINF)) idx)
      = tabulate (k # s) (\<lambda>idx. if hd idx = 0 then 0 else NEGINF)"
    by (rule tabulate_cong) simp
  then show ?thesis
    using assms
    by (simp add: KMaxSemiring_one_inplace_def BaseLog_zero_inplace_def fill_def
        set_item_scalar_def wrap_index_0)
qed

lemma column_length [simp]: "length (column y k r) = k"
  by (simp add: column_def)

lemma pairwise_sums_one:
  assumes "0 < k"
  shows "pairwise_sums (tabulate (k # s) (\<lambda>idx. if hd idx = 0 then 0 else NEGINF)) y k r
     = (if valid_index s r then column y k r
          @ concat (map (\<lambda>i. map (\<lambda>v. NEGINF + v) (column y k r)) [1..<k])
        else pairwise_sums (tabulate (k # s) (\<lambda>idx. if hd idx = 0 then 0 else NEGINF)) y k r)"
proof (cases "valid_index s r")
  case False
  then show ?thesis by simp
next
  case True
  let ?one = "tabulate (k # s) (\<lambda>idx. if hd idx = 0 then 0 else NEGINF)"
  have e: "elem ?one (i # r) = (if i = 0 then 0 else NEGINF)" if "i < k" for i
    using that True by simp
  have up: "[0..<k] = 0 # [1..<k]"
    using assms by (simp add: upt_conv_Cons)
  have "pairwise_sums ?one y k r
      = concat (map (\<lambda>i. map (\<lambda>j. (if i = 0 then 0 else NEGINF) + elem y (j # r)) [0..<k]) [0..<k])"
    unfolding pairwise_sums_def
    by (rule arg_cong [where f = concat]) (simp add: e)
  also have "\<dots> = map (\<lambda>j. elem y (j # r)) [0..<k]
      @ concat (map (\<lambda>i. map (\<lambda>j. (if i = 0 then 0 else NEGINF) + elem y (j # r)) [0..<k]) [1..<k])"
    by (subst (2) up) simp
  also have "concat (map (\<lambda>i. map (\<lambda>j. (if i = 0 then 0 else NEGINF) + elem y (j # r)) [0..<k]) [1..<k])
      = concat (map (\<lambda>i. map (\<lambda>v. NEGINF + v) (column y k r)) [1..<k])"
    by (rule arg_cong [where f = concat]) (simp add: column_def comp_def)
  finally show ?thesis using True by (simp add: column_def)
qed

lemma kmax_sorted_column:
  assumes "kmax_sorted k y" "shape y = k # s" "valid_index s r"
  shows "sorted (rev (column y k r))"
    "u \<in> set (column y k r) \<Longrightarrow> v \<in> set (column y k r) \<Longrightarrow> u + NEGINF \<le> v"
proof -
  have r: "r \<in> set (indices (tl (shape y)))"
    using assms(2,3) by (simp add: set_indices)
  from assms(1) r show "sorted (rev (column y k r))"
    unfolding kmax_sorted_def list_all_iff by blast
  from assms(1) r show "u \<in> set (column y k r) \<Longrightarrow> v \<in> set (column y k r) \<Longrightarrow> u + NEGINF \<le> v"
    unfolding kmax_sorted_def list_all_iff by blast
qed

lemma KMaxSemiring_mul_one:
  assumes "shape x = k # s" "shape y = k # s" "0 < k" "wf y" "kmax_sorted k y"
  shows "then_do (KMaxSemiring_one_inplace k x) (\<lambda>one. KMaxSemiring_mul k one y) = Inr y"
proof -
  let ?one = "tabulate (k # s) (\<lambda>idx. if hd idx = 0 then 0 else NEGINF)"
  have m: "KMaxSemiring_mul k ?one y
      = Inr (tabulate (k # s) (\<lambda>idx. topk_list k (pairwise_sums ?one y k (tl idx)) ! hd idx))"
    by (rule KMaxSemiring_mul_eq [OF _ assms(2,3)]) simp
  have "tabulate (k # s) (\<lambda>idx. topk_list k (pairwise_sums ?one y k (tl idx)) ! hd idx)
      = tabulate (k # s) (elem y)"
  proof (rule tabulate_cong)
    fix idx assume "valid_index (k # s) idx"
    then obtain l r where idx: "idx = l # r" and l: "l < k" and r: "valid_index s r"
      by (auto simp: valid_index_Cons)
    let ?col = "column y k r"
    let ?rest = "concat (map (\<lambda>i. map (\<lambda>v. NEGINF + v) ?col) [1..<k])"
    have ps: "pairwise_sums ?one y k r = ?col @ ?rest"
      using pairwise_sums_one [OF assms(3), of s y r] r by simp
    have "\<forall>u\<in>set ?rest. \<forall>v\<in>set ?col. u \<le> v"
      using kmax_sorted_column(2) [OF assms(5,2) r] by (auto simp: add.commute)
    then have "topk_list (length ?col) (?col @ ?rest) = ?col"
      by (rule topk_list_prefix [OF kmax_sorted_column(1) [OF assms(5,2) r]])
    then have "topk_list k (pairwise_sums ?one y k r) = ?col"
      by (simp add: ps)
    then show "topk_list k (pairwise_sums ?one y k (tl idx)) ! hd idx = elem y idx"
      using l by (simp add: idx column_def)
  qed
  also have "\<dots> = y"
    using tabulate_elem [OF assms(4)] assms(2) by simp
  finally show ?thesis
    by (simp add: KMaxSemiring_one_inplace_eq [OF assms(1,3)] m)
qed

lemma binop_const_left:
  assumes "shape y = s" "wf y" "\<And>v. f c v = v"
  shows "binop f (tabulate s (\<lambda>_. c)) y = Inr y"
proof -
  have "binop f (tabulate s (\<lambda>_. c)) y
      = Inr (tabulate s (\<lambda>idx. f (elem (tabulate s (\<lambda>_. c)) idx) (elem y idx)))"
    by (rule binop_same) (simp_all add: assms(1))
  also have "tabulate s (\<lambda>idx. f (elem (tabulate s (\<lambda>_. c)) idx) (elem y idx)) = tabulate s (elem y)"
    by (rule tabulate_cong) (simp add: assms(3))
  also have "\<dots> = y"
    using tabulate_elem [OF assms(2)] assms(1) by simp
  finally show ?thesis .
qed

lemma add_zero_components:
  assumes "shape y = n # s" "wf y" "\<And>c. c < n \<Longrightarrow> vs ! c = (0 :: real)"
  shows "tensor_add (tabulate (n # s) (\<lambda>idx. vs ! hd idx)) y = Inr y"
proof -
  let ?o = "tabulate (n # s) (\<lambda>idx. vs ! hd idx)"
  have "tensor_add ?o y = Inr (tabulate (n # s) (\<lambda>idx. elem ?o idx + elem y idx))"
    unfolding tensor_add_def by (rule binop_same) (simp_all add: assms(1))
  also have "tabulate (n # s) (\<lambda>idx. elem ?o idx + elem y idx) = tabulate (n # s) (elem y)"
  proof (rule tabulate_cong)
    fix idx assume v: "valid_index (n # s) idx"
    then obtain c r where "idx = c # r" "c < n" by (auto simp: valid_index_Cons)
    then show "elem ?o idx + elem y idx = elem y idx"
      using v assms(3) by simp
  qed
  also have "\<dots> = y"
    using tabulate_elem [OF assms(2)] assms(1) by simp
  finally show ?thesis .
qed

lemma mul_one_Base:
  assumes "shape x = shape y" "wf y"
  shows "Base_mul (Base_one_inplace x) y = Inr y"
  unfolding Base_mul_def Base_one_inplace_def fill_def tensor_mul_def
  by (rule binop_const_left) (simp_all add: assms)

lemma mul_one_BaseLog:
  assumes "shape x = shape y" "wf y"
  shows "BaseLog_mul (BaseLog_one_inplace x) y = Inr y"
  unfolding BaseLog_mul_def BaseLog_one_inplace_def fill_def tensor_add_def
  by (rule binop_const_left) (simp_all add: assms)

lemma mul_one_three:
  assumes "shape x = 3 # s" "shape y = 3 # s" "wf y"
  shows "then_do (fill3 0 0 0 x) (\<lambda>one. tensor_add one y) = Inr y"
proof -
  have "tensor_add (tabulate (3 # s) (\<lambda>idx. [0, 0, 0] ! hd idx)) y = Inr y"
  proof (rule add_zero_components [OF assms(2,3)])
    fix c :: nat assume "c < 3"
    then have "c = 0 \<or> c = 1 \<or> c = 2" by auto
    then show "[0, 0, 0 :: real] ! c = 0" by auto
  qed
  then show ?thesis by (simp add: fill3_eq [OF assms(1)])
qed

lemma mul_one_Entropy:
  assumes "shape x = 2 # s" "shape y = 2 # s" "wf y"
  shows "then_do (EntropySemiring_one_inplace x) (\<lambda>one. EntropySemiring_mul one y) = Inr y"
proof -
  have "tensor_add (tabulate (2 # s) (\<lambda>idx. [0, 0] ! hd idx)) y = Inr y"
  proof (rule add_zero_components [OF assms(2,3)])
    fix c :: nat assume "c < 2"
    then have "c = 0 \<or> c = 1" by auto
    then show "[0, 0 :: real] ! c = 0" by auto
  qed
  then show ?thesis
    by (simp add: EntropySemiring_one_inplace_def EntropySemiring_fill_eq [OF assms(1)]
        EntropySemiring_mul_def)
qed

lemma wrap_dim_last: "wrap_dim (Suc n) (- 1) = Inr n"
  by (simp add: wrap_dim_def Let_def)

lemma stack_last_pair:
  assumes "shape z = s" "shape y = s"
  shows "stack_last [z, y]
     = Inr (tabulate (s @ [2]) (\<lambda>idx. elem ([z, y] ! last idx) (butlast idx)))"
  by (simp add: stack_last_def assms numeral_2_eq_2)

lemma reduce_pair:
  "reduce g (tabulate (s @ [2]) (\<lambda>idx. elem ([z, y] ! last idx) (butlast idx))) (length s)
     = tabulate s (\<lambda>idx. g [elem z idx, elem y idx])"
proof -
  let ?t = "tabulate (s @ [2]) (\<lambda>idx. elem ([z, y] ! last idx) (butlast idx))"
  have rm: "remove_nth (length s) (s @ [2]) = s"
    by (simp add: remove_nth_def)
  have "reduce g ?t (length s) = tabulate s (\<lambda>idx. g (lane ?t (length s) idx))"
    using reduce_eq [of "length s" ?t g] by (simp add: rm)
  also have "\<dots> = tabulate s (\<lambda>idx. g [elem z idx, elem y idx])"
  proof (rule tabulate_cong)
    fix idx assume v: "valid_index s idx"
    have len: "length idx = length s" by (rule valid_index_length [OF v])
    have i: "insert_nth (length s) j idx = idx @ [j]" for j
      by (simp add: insert_nth_def len)
    have v2: "valid_index (s @ [2]) (idx @ [j])" if "j < 2" for j
      using v that len by (simp add: valid_index_append)
    have "lane ?t (length s) idx = map (\<lambda>j. elem ?t (idx @ [j])) [0..<2]"
      by (simp add: lane_def i)
    also have "\<dots> = [elem ?t (idx @ [0]), elem ?t (idx @ [1])]"
      by (simp add: upt_conv_Cons numeral_2_eq_2)
    also have "\<dots> = [elem z idx, elem y idx]"
      using v2 [of 0] v2 [of 1] by simp
    finally show "g (lane ?t (length s) idx) = g [elem z idx, elem y idx]" by simp
  qed
  finally show ?thesis .
qed

lemma plus_zero_Std:
  assumes "shape x = shape y" "wf y"
  shows "Semiring_plus StdSemiring_sum (Base_zero_inplace x) y = Inr y"
proof -
  let ?z = "Base_zero_inplace x"
  let ?s = "shape y"
  let ?t = "tabulate (?s @ [2]) (\<lambda>idx. elem ([?z, y] ! last idx) (butlast idx))"
  have sz: "shape ?z = ?s" by (simp add: Base_zero_inplace_def fill_def assms(1))
  have st: "stack_last [?z, y] = Inr ?t"
    by (rule stack_last_pair [OF sz refl])
  have "torch_sum ?t (- 1) = Inr (reduce sum_list ?t (length ?s))"
    by (simp add: torch_sum_def ndim_def wrap_dim_last)
  also have "reduce sum_list ?t (length ?s) = tabulate ?s (\<lambda>idx. sum_list [elem ?z idx, elem y idx])"
    by (rule reduce_pair)
  also have "\<dots> = tabulate ?s (elem y)"
    by (rule tabulate_cong) (simp add: Base_zero_inplace_def fill_def assms(1))
  also have "\<dots> = y" by (rule tabulate_elem [OF assms(2)])
  finally have "torch_sum ?t (- 1) = Inr y" .
  then show ?thesis
    by (simp only: Semiring_plus_def StdSemiring_sum_def st then_do_Inr)
qed

lemma plus_zero_Max:
  assumes "shape x = shape y" "wf y" "list_all (\<lambda>v. NEGINF \<le> v) (data y)"
  shows "Semiring_plus MaxSemiring_sum (BaseLog_zero_inplace x) y = Inr y"
proof -
  let ?z = "BaseLog_zero_inplace x"
  let ?s = "shape y"
  let ?t = "tabulate (?s @ [2]) (\<lambda>idx. elem ([?z, y] ! last idx) (butlast idx))"
  have sz: "shape ?z = ?s" by (simp add: BaseLog_zero_inplace_def fill_def assms(1))
  have st: "stack_last [?z, y] = Inr ?t"
    by (rule stack_last_pair [OF sz refl])
  have "torch_max_values ?t (- 1) = Inr (reduce max_list ?t (length ?s))"
    by (simp add: torch_max_values_def ndim_def wrap_dim_last)
  also have "reduce max_list ?t (length ?s) = tabulate ?s (\<lambda>idx. max_list [elem ?z idx, elem y idx])"
    by (rule reduce_pair)
  also have "\<dots> = tabulate ?s (elem y)"
  proof (rule tabulate_cong)
    fix idx assume v: "valid_index ?s idx"
    have "offset ?s idx < length (data y)"
      using offset_less [OF v] assms(2) by (simp add: wf_def)
    then have "NEGINF \<le> elem y idx"
      using assms(3) by (simp add: elem_def list_all_length)
    then show "max_list [elem ?z idx, elem y idx] = elem y idx"
      using v by (simp add: max_list_def BaseLog_zero_inplace_def fill_def assms(1) max_def)
  qed
  also have "\<dots> = y" by (rule tabulate_elem [OF assms(2)])
  finally have "torch_max_values ?t (- 1) = Inr y" .
  then show ?thesis
    by (simp only: Semiring_plus_def MaxSemiring_sum_def st then_do_Inr)
qed

lemma index_of_eq:
  assumes "i < length perm" "perm ! i = b" "\<And>j. j < i \<Longrightarrow> perm ! j \<noteq> b"
  shows "index_of perm b = i"
proof -
  have "takeWhile (\<lambda>x. x \<noteq> b) perm = take i perm"
    using assms by (intro takeWhile_eq_take_P_nth) auto
  then show ?thesis using assms(1) by (simp add: index_of_def)
qed

lemma sort_rotate_left: "sort ([Suc 0..<Suc n] @ [0]) = [0..<Suc n]"
proof -
  have "[0..<Suc n] = 0 # [Suc 0..<Suc n]" by (simp add: upt_conv_Cons)
  then have "mset [0..<Suc n] = mset ([Suc 0..<Suc n] @ [0])" by simp
  then show ?thesis
    by (metis properties_for_sort sorted_upt)
qed

lemma sort_rotate_right: "sort (n # [0..<n]) = [0..<Suc n]"
proof -
  have "mset [0..<Suc n] = mset (n # [0..<n])" by simp
  then show ?thesis
    by (metis properties_for_sort sorted_upt)
qed

lemma map_nth_Cons_upt: "map ((!) (k # s)) [Suc 0..<Suc (length s)] = s"
proof -
  have "[Suc 0..<Suc (length s)] = map Suc [0..<length s]"
    by (simp add: map_Suc_upt)
  then have "map ((!) (k # s)) [Suc 0..<Suc (length s)] = map ((!) s) [0..<length s]"
    by (simp add: comp_def)
  then show ?thesis by (simp add: map_nth)
qed

lemma map_nth_upt_take: "n \<le> length xs \<Longrightarrow> map ((!) xs) [0..<n] = take n xs"
proof -
  assume n: "n \<le> length xs"
  have "take n (map ((!) xs) [0..<length xs]) = map ((!) xs) (take n [0..<length xs])"
    by (rule take_map)
  then show ?thesis
    using n by (simp add: map_nth)
qed

lemma permute_front_to_back:
  assumes "shape t = k # s"
  shows "permute t ([1..<ndim t] @ [0])
     = Inr (tabulate (s @ [k]) (\<lambda>idx. elem t (last idx # butlast idx)))"
proof -
  let ?n = "length s"
  let ?perm = "[Suc 0..<Suc ?n] @ [0]"
  have nd: "ndim t = Suc ?n" by (simp add: ndim_def assms)
  have sh: "map ((!) (shape t)) ?perm = s @ [k]"
    using map_nth_Cons_upt [of k s] by (simp add: assms)
  have i0: "index_of ?perm 0 = ?n"
    by (rule index_of_eq) (auto simp: nth_append simp del: upt_Suc)
  have iS: "index_of ?perm (Suc b) = b" if "b < ?n" for b
    using that by (intro index_of_eq) (auto simp: nth_append simp del: upt_Suc)
  have "tabulate (s @ [k]) (\<lambda>idx. elem t (map (\<lambda>b. idx ! index_of ?perm b) [0..<Suc ?n]))
      = tabulate (s @ [k]) (\<lambda>idx. elem t (last idx # butlast idx))"
  proof (rule tabulate_cong)
    fix idx assume v: "valid_index (s @ [k]) idx"
    have len: "length idx = Suc ?n" using valid_index_length [OF v] by simp
    have up: "[0..<Suc ?n] = 0 # map Suc [0..<?n]"
      by (simp add: map_Suc_upt upt_conv_Cons del: upt_Suc)
    have "map (\<lambda>b. idx ! index_of ?perm b) [0..<Suc ?n]
        = idx ! index_of ?perm 0 # map (\<lambda>b. idx ! index_of ?perm (Suc b)) [0..<?n]"
      by (simp only: up list.map map_map comp_def)
    also have "\<dots> = idx ! ?n # map (\<lambda>b. idx ! b) [0..<?n]"
      using iS by (simp add: i0 del: upt_Suc)
    also have "idx ! ?n = last idx"
      using len by (cases idx rule: rev_cases) (simp_all add: nth_append)
    also have "map (\<lambda>b. idx ! b) [0..<?n] = butlast idx"
      using len map_nth_upt_take [of ?n idx] by (simp add: butlast_conv_take)
    finally show "elem t (map (\<lambda>b. idx ! index_of ?perm b) [0..<Suc ?n])
        = elem t (last idx # butlast idx)"
      by simp
  qed
  moreover have "sort ?perm = [0..<ndim t]"
    by (simp only: nd sort_rotate_left)
  moreover have "[1..<ndim t] @ [0] = ?perm"
    by (simp only: nd One_nat_def)
  ultimately show ?thesis
    unfolding permute_def by (simp only: refl if_True sh nd)
qed

lemma permute_back_to_front:
  assumes "shape t = s @ [k]"
  shows "permute t ((ndim t - 1) # [0..<ndim t - 1])
     = Inr (tabulate (k # s) (\<lambda>idx. elem t (tl idx @ [hd idx])))"
proof -
  let ?n = "length s"
  let ?perm = "?n # [0..<?n]"
  have nd: "ndim t = Suc ?n" by (simp add: ndim_def assms)
  have "map ((!) (s @ [k])) [0..<?n] = map ((!) s) [0..<?n]"
    by (simp add: nth_append)
  then have sh: "map ((!) (shape t)) ?perm = k # s"
    by (simp add: assms map_nth)
  have i0: "index_of ?perm ?n = 0"
    by (simp add: index_of_def)
  have iS: "index_of ?perm b = Suc b" if "b < ?n" for b
    using that by (intro index_of_eq) (auto simp: nth_Cons')
  have "tabulate (k # s) (\<lambda>idx. elem t (map (\<lambda>b. idx ! index_of ?perm b) [0..<Suc ?n]))
      = tabulate (k # s) (\<lambda>idx. elem t (tl idx @ [hd idx]))"
  proof (rule tabulate_cong)
    fix idx assume v: "valid_index (k # s) idx"
    then obtain l r where idx: "idx = l # r" and len: "length r = ?n"
      by (auto simp: valid_index_Cons dest: valid_index_length)
    have "map (\<lambda>b. idx ! index_of ?perm b) [0..<Suc ?n]
        = map (\<lambda>b. idx ! Suc b) [0..<?n] @ [idx ! 0]"
      by (simp add: i0 iS)
    also have "map (\<lambda>b. idx ! Suc b) [0..<?n] = r"
      using len map_nth [of r] by (simp add: idx)
    finally show "elem t (map (\<lambda>b. idx ! index_of ?perm b) [0..<Suc ?n])
        = elem t (tl idx @ [hd idx])"
      by (simp add: idx)
  qed
  moreover have "sort ?perm = [0..<ndim t]"
    by (simp only: nd sort_rotate_right)
  moreover have "(ndim t - 1) # [0..<ndim t - 1] = ?perm"
    by (simp only: nd diff_Suc_1)
  ultimately show ?thesis
    unfolding permute_def by (simp only: refl if_True sh nd)
qed

lemma view_infer_last_eq:
  assumes "shape t = s @ [n, k]" "prod_list s \<noteq> 0"
  shows "view_infer_last t (butlast (butlast (shape t))) = Inr (t\<lparr>shape := s @ [n * k]\<rparr>)"
proof -
  have b: "butlast (butlast (s @ [n, k])) = s"
    by (simp add: butlast_append)
  have p: "prod_list (s @ [n, k]) = prod_list s * (n * k)"
    by simp
  show ?thesis
    using assms(2) by (simp add: view_infer_last_def assms(1) b p del: prod_list.append)
qed

lemma topk_last_eq:
  assumes "shape t = s @ [m]" "k \<le> m"
  shows "torch_topk_values t k (- 1)
     = Inr (tabulate (s @ [k])
         (\<lambda>idx. topk_list k (map (\<lambda>j. elem t (butlast idx @ [j])) [0..<m]) ! last idx))"
proof -
  let ?a = "length s"
  have nd: "ndim t = Suc ?a" by (simp add: ndim_def assms(1))
  have wd: "wrap_dim (ndim t) (- 1) = Inr ?a"
    by (simp add: nd wrap_dim_last)
  have up: "(shape t)[?a := k] = s @ [k]"
    by (simp add: assms(1))
  have "tabulate (s @ [k]) (\<lambda>idx. topk_list k (lane t ?a (remove_nth ?a idx)) ! (idx ! ?a))
      = tabulate (s @ [k])
         (\<lambda>idx. topk_list k (map (\<lambda>j. elem t (butlast idx @ [j])) [0..<m]) ! last idx)"
  proof (rule tabulate_cong)
    fix idx assume v: "valid_index (s @ [k]) idx"
    have len: "length idx = Suc ?a" using valid_index_length [OF v] by simp
    then obtain r l where idx: "idx = r @ [l]" and lr: "length r = ?a"
      by (cases idx rule: rev_cases) auto
    have rm: "remove_nth ?a (r @ [l]) = r"
      by (simp add: remove_nth_def lr)
    have ins: "insert_nth ?a j r = r @ [j]" for j
      by (simp add: insert_nth_def lr)
    show "topk_list k (lane t ?a (remove_nth ?a idx)) ! (idx ! ?a)
        = topk_list k (map (\<lambda>j. elem t (butlast idx @ [j])) [0..<m]) ! last idx"
      by (simp add: rm lane_def ins assms(1) idx lr nth_append)
  qed
  then show ?thesis
    using assms(2) by (simp add: torch_topk_values_def wd assms(1) up [unfolded assms(1)])
qed

lemma offset_last_two:
  assumes "length r = length s"
  shows "offset (s @ [n, k]) (r @ [j, l]) = offset (s @ [n * k]) (r @ [j * k + l])"
  by (simp add: offset_append [OF assms] algebra_simps)

lemma KMaxSemiring_sum_eq:
  assumes "shape xs = k # s @ [n]" "prod_list s \<noteq> 0" "0 < n" "0 < k"
  shows "KMaxSemiring_sum k xs (- 1)
     = Inr (tabulate (k # s) (\<lambda>idx. topk_list k (kmax_candidates xs k n (tl idx)) ! hd idx))"
proof -
  define t1 where "t1 = tabulate ((s @ [n]) @ [k]) (\<lambda>idx. elem xs (last idx # butlast idx))"
  define t2 where "t2 = t1\<lparr>shape := s @ [n * k]\<rparr>"
  define t3 where "t3 = tabulate (s @ [k])
      (\<lambda>idx. topk_list k (map (\<lambda>j. elem t2 (butlast idx @ [j])) [0..<n * k]) ! last idx)"
  define t4 where "t4 = tabulate (k # s) (\<lambda>idx. elem t3 (tl idx @ [hd idx]))"
  have p1: "permute xs ([1..<ndim xs] @ [0]) = Inr t1"
    unfolding t1_def by (rule permute_front_to_back [OF assms(1)])
  have s1: "shape t1 = s @ [n, k]" by (simp add: t1_def)
  have v: "view_infer_last t1 (butlast (butlast (shape t1))) = Inr t2"
    unfolding t2_def by (rule view_infer_last_eq [OF s1 assms(2)])
  have kk: "k \<le> n * k" using assms(3) by (cases n) simp_all
  have tk: "torch_topk_values t2 k (- 1) = Inr t3"
    unfolding t3_def by (rule topk_last_eq [OF _ kk]) (simp add: t2_def)
  have p2: "permute t3 ((ndim t3 - 1) # [0..<ndim t3 - 1]) = Inr t4"
    unfolding t4_def by (rule permute_back_to_front) (simp add: t3_def)
  have s4: "hd (shape t4) = k" by (simp add: t4_def)
  have run: "KMaxSemiring_sum k xs (- 1) = Inr t4"
    unfolding KMaxSemiring_sum_def
    by (simp only: refl if_True p1 v tk p2 s4 then_do_Inr)
  have "t4 = tabulate (k # s) (\<lambda>idx. topk_list k (kmax_candidates xs k n (tl idx)) ! hd idx)"
    unfolding t4_def
  proof (rule tabulate_cong)
    fix idx assume "valid_index (k # s) idx"
    then obtain l r where idx: "idx = l # r" and l: "l < k" and r: "valid_index s r"
      by (auto simp: valid_index_Cons)
    have len: "length r = length s" by (rule valid_index_length [OF r])
    have v3: "valid_index (s @ [k]) (r @ [l])"
      using r l len by (simp add: valid_index_append)
    have e: "elem t2 (r @ [m]) = elem xs ((m mod k) # r @ [m div k])" if m: "m < n * k" for m
    proof -
      have j: "m div k < n" using m assms(4) by (simp add: less_mult_imp_div_less)
      have l': "m mod k < k" using assms(4) by simp
      have v1: "valid_index ((s @ [n]) @ [k]) (r @ [m div k, m mod k])"
        using r j l' len by (simp add: valid_index_append)
      have m': "m div k * k + m mod k = m" by (rule div_mult_mod_eq)
      have "elem t2 (r @ [m]) = data t1 ! offset (s @ [n * k]) (r @ [m])"
        by (simp add: t2_def elem_def)
      also have "offset (s @ [n * k]) (r @ [m]) = offset (s @ [n, k]) (r @ [m div k, m mod k])"
        using offset_last_two [OF len, of n k "m div k" "m mod k"] by (simp only: m')
      also have "data t1 ! offset (s @ [n, k]) (r @ [m div k, m mod k])
          = elem t1 (r @ [m div k, m mod k])"
        by (simp add: elem_def s1)
      also have "\<dots> = elem xs ((m mod k) # r @ [m div k])"
        using v1 unfolding t1_def by (simp add: butlast_append)
      finally show ?thesis .
    qed
    have "elem t3 (r @ [l]) = topk_list k (map (\<lambda>j. elem t2 (r @ [j])) [0..<n * k]) ! l"
      using v3 by (simp add: t3_def)
    also have "map (\<lambda>j. elem t2 (r @ [j])) [0..<n * k] = kmax_candidates xs k n r"
      using e by (simp add: kmax_candidates_def)
    finally show "elem t3 (tl idx @ [hd idx])
        = topk_list k (kmax_candidates xs k n (tl idx)) ! hd idx"
      by (simp add: idx)
  qed
  with run show ?thesis by (simp only:)
qed

lemma max_list_eq_Max: "xs \<noteq> [] \<Longrightarrow> max_list xs = Max (set xs)"
proof -
  assume "xs \<noteq> []"
  then obtain y ys where xs: "xs = y # ys" by (cases xs) auto
  show ?thesis
    by (simp only: xs max_list_def list.sel Max.set_eq_fold)
qed

lemma topk_list_1: "xs \<noteq> [] \<Longrightarrow> topk_list 1 xs ! 0 = max_list xs"
proof -
  assume ne: "xs \<noteq> []"
  then have sne: "sort xs \<noteq> []" by (metis length_sort length_0_conv)
  have "topk_list 1 xs ! 0 = last (sort xs)"
    using sne by (cases "sort xs" rule: rev_cases) (simp_all add: topk_list_def)
  also have "\<dots> = Max (set (sort xs))"
  proof (rule Max_eqI [symmetric])
    show "finite (set (sort xs))" by simp
    show "last (sort xs) \<in> set (sort xs)" using sne by (rule last_in_set)
    fix y assume "y \<in> set (sort xs)"
    then show "y \<le> last (sort xs)"
      using sorted_sort [of xs] sne
      by (cases "sort xs" rule: rev_cases) (auto simp: sorted_append)
  qed
  also have "\<dots> = max_list xs"
    using ne by (simp add: max_list_eq_Max)
  finally show ?thesis .
qed

lemma MaxSemiring_sum_last_eq:
  assumes "shape xs = k # s @ [n]" "0 < n"
  shows "MaxSemiring_sum xs (- 1)
     = Inr (tabulate (k # s) (\<lambda>idx. max_list (map (\<lambda>j. elem xs (idx @ [j])) [0..<n])))"
proof -
  let ?a = "Suc (length s)"
  have nd: "ndim xs = Suc ?a" by (simp add: ndim_def assms(1))
  have wd: "wrap_dim (ndim xs) (- 1) = Inr ?a"
    by (simp only: nd wrap_dim_last)
  have na: "shape xs ! ?a = n" by (simp add: assms(1) nth_append)
  have rm: "remove_nth ?a (shape xs) = k # s"
    by (simp add: remove_nth_def assms(1))
  have "reduce max_list xs ?a = tabulate (k # s) (\<lambda>idx. max_list (lane xs ?a idx))"
    using reduce_eq [of ?a xs max_list] by (simp add: rm) (simp add: assms(1))
  also have "\<dots> = tabulate (k # s) (\<lambda>idx. max_list (map (\<lambda>j. elem xs (idx @ [j])) [0..<n]))"
  proof (rule tabulate_cong)
    fix idx assume v: "valid_index (k # s) idx"
    have len: "length idx = ?a" using valid_index_length [OF v] by simp
    show "max_list (lane xs ?a idx) = max_list (map (\<lambda>j. elem xs (idx @ [j])) [0..<n])"
      by (simp add: lane_def na insert_nth_def len)
  qed
  finally show ?thesis
    using assms(2) by (simp add: MaxSemiring_sum_def torch_max_values_def wd na)
qed

lemma KMax1_sum_eq_Max:
  assumes "shape xs = Suc 0 # s @ [n]" "prod_list s \<noteq> 0" "0 < n"
  shows "KMaxSemiring_sum (Suc 0) xs (- 1) = MaxSemiring_sum xs (- 1)"
proof -
  have "tabulate (Suc 0 # s) (\<lambda>idx. topk_list (Suc 0) (kmax_candidates xs (Suc 0) n (tl idx)) ! hd idx)
      = tabulate (Suc 0 # s) (\<lambda>idx. max_list (map (\<lambda>j. elem xs (idx @ [j])) [0..<n]))"
  proof (rule tabulate_cong)
    fix idx assume "valid_index (Suc 0 # s) idx"
    then obtain r where idx: "idx = 0 # r" by (auto simp: valid_index_Cons)
    have c: "kmax_candidates xs (Suc 0) n r = map (\<lambda>j. elem xs (0 # r @ [j])) [0..<n]"
      by (simp add: kmax_candidates_def)
    have "map (\<lambda>j. elem xs (0 # r @ [j])) [0..<n] \<noteq> []"
      using assms(3) by simp
    then have "topk_list 1 (map (\<lambda>j. elem xs (0 # r @ [j])) [0..<n]) ! 0
        = max_list (map (\<lambda>j. elem xs (0 # r @ [j])) [0..<n])"
      by (rule topk_list_1)
    then show "topk_list (Suc 0) (kmax_candidates xs (Suc 0) n (tl idx)) ! hd idx
        = max_list (map (\<lambda>j. elem xs (idx @ [j])) [0..<n])"
      by (simp add: idx c)
  qed
  then show ?thesis
    using KMaxSemiring_sum_eq [OF assms(1,2,3)] MaxSemiring_sum_last_eq [OF assms(1,3)]
    by simp
qed

lemma KMax1_mul_eq_Max:
  assumes "shape a = Suc 0 # s" "shape b = Suc 0 # s"
  shows "KMaxSemiring_mul (Suc 0) a b = BaseLog_mul a b"
proof -
  have "tabulate (Suc 0 # s) (\<lambda>idx. topk_list (Suc 0) (pairwise_sums a b (Suc 0) (tl idx)) ! hd idx)
      = tabulate (Suc 0 # s) (\<lambda>idx. elem a idx + elem b idx)"
  proof (rule tabulate_cong)
    fix idx assume "valid_index (Suc 0 # s) idx"
    then obtain r where idx: "idx = 0 # r" by (auto simp: valid_index_Cons)
    show "topk_list (Suc 0) (pairwise_sums a b (Suc 0) (tl idx)) ! hd idx = elem a idx + elem b idx"
      by (simp add: idx pairwise_sums_def topk_list_def)
  qed
  moreover have "BaseLog_mul a b = Inr (tabulate (Suc 0 # s) (\<lambda>idx. elem a idx + elem b idx))"
    unfolding BaseLog_mul_def tensor_add_def by (rule binop_same [OF assms])
  ultimately show ?thesis
    using KMaxSemiring_mul_eq [OF assms] by simp
qed

lemma KMax1_convert_eq:
  assumes "wf p"
  shows "KMaxSemiring_convert (Suc 0) (PTensor p) = Semiring_convert (PTensor p)"
proof -
  let ?z = "BaseLog_zero_inplace (zeros (Suc 0 # shape p))"
  let ?v = "tabulate (Suc 0 # shape p) (\<lambda>idx. if hd idx = 0 then elem p (tl idx) else elem ?z idx)"
  have sz: "shape ?z = Suc 0 # shape p"
    by (simp add: BaseLog_zero_inplace_def fill_def zeros_def)
  have si: "set_item ?z 0 p = Inr ?v"
    by (rule set_item_eq [OF sz _ refl assms]) (simp add: wrap_index_def)
  have "?v = p\<lparr>shape := Suc 0 # shape p\<rparr>"
  proof (rule tensor_eqI)
    show "wf ?v" by simp
    show "wf (p\<lparr>shape := Suc 0 # shape p\<rparr>)" using assms by (simp add: wf_def)
    show "shape ?v = shape (p\<lparr>shape := Suc 0 # shape p\<rparr>)" by simp
    fix idx assume "valid_index (shape ?v) idx"
    then obtain r where idx: "idx = 0 # r" and r: "valid_index (shape p) r"
      by (auto simp: valid_index_Cons)
    have "elem ?v (0 # r) = elem p r"
      using r by simp
    also have "\<dots> = elem (p\<lparr>shape := Suc 0 # shape p\<rparr>) (0 # r)"
      by (simp add: elem_def)
    finally show "elem ?v idx = elem (p\<lparr>shape := Suc 0 # shape p\<rparr>) idx"
      by (simp only: idx)
  qed
  with si have "set_item ?z 0 p = Inr (p\<lparr>shape := Suc 0 # shape p\<rparr>)"
    by (simp only:)
  then show ?thesis
    by (simp add: KMaxSemiring_convert_def Semiring_convert_def unsqueeze_0 Let_def)
qed

lemma KMax1_unconvert_eq:
  assumes "wf v" "shape v = Suc 0 # s"
  shows "KMaxSemiring_unconvert (Suc 0) v = Semiring_unconvert v"
proof -
  have "tabulate s (\<lambda>idx. elem v (0 # idx)) = v\<lparr>shape := s\<rparr>"
  proof (rule tensor_eqI)
    show "wf (tabulate s (\<lambda>idx. elem v (0 # idx)))" by simp
    show "wf (v\<lparr>shape := s\<rparr>)" using assms by (simp add: wf_def)
    show "shape (tabulate s (\<lambda>idx. elem v (0 # idx))) = shape (v\<lparr>shape := s\<rparr>)" by simp
    fix idx assume "valid_index (shape (tabulate s (\<lambda>idx. elem v (0 # idx)))) idx"
    then have v: "valid_index s idx" by simp
    have "elem (tabulate s (\<lambda>idx. elem v (0 # idx))) idx = elem v (0 # idx)"
      using v by simp
    also have "\<dots> = elem (v\<lparr>shape := s\<rparr>) idx"
      by (simp add: elem_def assms(2))
    finally show "elem (tabulate s (\<lambda>idx. elem v (0 # idx))) idx = elem (v\<lparr>shape := s\<rparr>) idx" .
  qed
  then show ?thesis
    by (simp add: KMaxSemiring_unconvert_def Semiring_unconvert_def select_def squeeze_def
        assms(2) wrap_index_def ndim_def remove_nth_def)
qed

lemma select_cases:
  "select t i = Inl IndexError \<or> (\<exists>x. select t i = Inr x \<and> shape x = tl (shape t) \<and> shape t \<noteq> [])"
  by (cases "wrap_index (hd (shape t)) i") (auto simp: select_def wrap_index_def split: if_splits)

lemma wrap_dim_below: "0 < n \<Longrightarrow> wrap_dim n (- int n - 1) = Inl IndexError"
  by (simp add: wrap_dim_def Let_def max_def)

lemma torch_logsumexp_below:
  assumes "shape x = tl (shape xs)" "2 \<le> ndim xs"
  shows "torch_logsumexp x (- int (ndim xs)) = Inl IndexError"
proof -
  have n: "0 < ndim x" "- int (ndim xs) = - int (ndim x) - 1"
    using assms by (simp_all add: ndim_def)
  show ?thesis
    using wrap_dim_below [OF n(1)] by (simp add: torch_logsumexp_def n(2))
qed

lemma expectation_sum_leading_negative:
  assumes "2 \<le> ndim xs"
  shows "KLDivergenceSemiring_sum xs (- int (ndim xs)) = Inl IndexError"
    "CrossEntropySemiring_sum xs (- int (ndim xs)) = Inl IndexError"
    "EntropySemiring_sum xs (- int (ndim xs)) = Inl IndexError"
    "RiskSemiring_sum xs (- int (ndim xs)) = Inl IndexError"
proof -
  have d: "- int (ndim xs) \<noteq> 0" "\<not> 0 < - int (ndim xs)"
    using assms by simp_all
  from select_cases [of xs 0]
  show "KLDivergenceSemiring_sum xs (- int (ndim xs)) = Inl IndexError"
    unfolding KLDivergenceSemiring_sum_def Let_def
    using d torch_logsumexp_below [OF _ assms] by (auto simp only: if_False then_do_Inl then_do_Inr)
  from select_cases [of xs 0]
  show "CrossEntropySemiring_sum xs (- int (ndim xs)) = Inl IndexError"
    unfolding CrossEntropySemiring_sum_def Let_def
    using d torch_logsumexp_below [OF _ assms] by (auto simp only: if_False then_do_Inl then_do_Inr)
  from select_cases [of xs 0]
  show "EntropySemiring_sum xs (- int (ndim xs)) = Inl IndexError"
    unfolding EntropySemiring_sum_def Let_def
    using d torch_logsumexp_below [OF _ assms] by (auto simp only: if_False then_do_Inl then_do_Inr)
  from select_cases [of xs 0]
  show "RiskSemiring_sum xs (- int (ndim xs)) = Inl IndexError"
    unfolding RiskSemiring_sum_def Let_def
    using d torch_logsumexp_below [OF _ assms] by (auto simp only: if_False then_do_Inl then_do_Inr)
qed

section \<open>The claims\<close>

text \<open>
  Claim C3, as stated: for every concrete semiring and every potentials input \<open>p\<close>
  accepted by \<^verbatim>\<open>convert\<close>, \<^verbatim>\<open>unconvert(convert(p))\<close> equals \<open>p\<close>.  This fails for the
  expectation semirings, whose \<^verbatim>\<open>unconvert\<close> returns the statistic component, which
  \<^verbatim>\<open>convert\<close> has just set to zero: for the Entropy semiring and the potentials
  \<open>[1, 2]\<close> the round trip gives \<open>[0, 0]\<close>.
\<close>

theorem unconvert_convert_counterexample:
  "then_do (convert EntropySemiring (PTensor \<lparr>shape = [2], data = [1, 2]\<rparr>)) (unconvert EntropySemiring)
     = Inr \<lparr>shape = [2], data = [0, 0]\<rparr>"
  by code_simp

text \<open>
  Claim C3, amended: for every potentials input accepted by \<^verbatim>\<open>convert\<close>, the round trip
  \<^verbatim>\<open>unconvert(convert(p))\<close> returns \<open>p\<close> for the Counting, Log, Max, K-Max and
  Temperature-Max semirings, and returns the zero-filled statistic component (of the shape
  of one component) for the KL-Divergence, Cross-Entropy, Entropy and Risk semirings.
\<close>

theorem unconvert_convert_amended:
  assumes "convert sr p = Inr v" and "wf_potentials p"
  shows "(is_expectation sr \<longrightarrow> unconvert sr v = Inr (zeros (tl (shape v))))
       \<and> (\<not> is_expectation sr \<longrightarrow> (\<exists>t. p = PTensor t \<and> unconvert sr v = Inr t))"
  using assms
  by (cases sr)
    (simp_all add: is_expectation_def Semiring_convert_unconvert KMaxSemiring_convert_unconvert
      KLDivergenceSemiring_convert_def CrossEntropySemiring_convert_def RiskSemiring_convert_def
      KLDivergenceSemiring_unconvert_def CrossEntropySemiring_unconvert_def
      RiskSemiring_unconvert_def EntropySemiring_unconvert_def
      convert3_unconvert Entropy_convert_unconvert)

theorem unconvert_convert_amended_witness:
  "convert (KMaxSemiring 2) (PTensor \<lparr>shape = [3], data = [1, 2, 3]\<rparr>)
     = Inr \<lparr>shape = [2, 3], data = [1, 2, 3, NEGINF, NEGINF, NEGINF]\<rparr>
   \<and> wf_potentials (PTensor \<lparr>shape = [3], data = [1, 2, 3]\<rparr>)
   \<and> unconvert (KMaxSemiring 2) \<lparr>shape = [2, 3], data = [1, 2, 3, NEGINF, NEGINF, NEGINF]\<rparr>
       = Inr \<lparr>shape = [3], data = [1, 2, 3]\<rparr>
   \<and> convert RiskSemiring (PList [\<lparr>shape = [2], data = [1, 2]\<rparr>, \<lparr>shape = [2], data = [5, 7]\<rparr>])
     = Inr \<lparr>shape = [3, 2], data = [1, 2, 5, 7, 0, 0]\<rparr>
   \<and> wf_potentials (PList [\<lparr>shape = [2], data = [1, 2]\<rparr>, \<lparr>shape = [2], data = [5, 7]\<rparr>])
   \<and> unconvert RiskSemiring \<lparr>shape = [3, 2], data = [1, 2, 5, 7, 0, 0]\<rparr>
       = Inr (zeros [2])"
proof -
  have h1: "convert (KMaxSemiring 2) (PTensor \<lparr>shape = [3], data = [1, 2, 3]\<rparr>)
     = Inr \<lparr>shape = [2, 3], data = [1, 2, 3, NEGINF, NEGINF, NEGINF]\<rparr>"
    by code_simp
  have h2: "wf_potentials (PTensor \<lparr>shape = [3], data = [1, 2, 3]\<rparr>)"
    by (simp add: wf_potentials_def wf_def)
  have h3: "convert RiskSemiring (PList [\<lparr>shape = [2], data = [1, 2]\<rparr>, \<lparr>shape = [2], data = [5, 7]\<rparr>])
     = Inr \<lparr>shape = [3, 2], data = [1, 2, 5, 7, 0, 0]\<rparr>"
    by code_simp
  have h4: "wf_potentials (PList [\<lparr>shape = [2], data = [1, 2]\<rparr>, \<lparr>shape = [2], data = [5, 7]\<rparr>])"
    by (simp add: wf_potentials_def wf_def)
  show ?thesis
    using h1 h2 h3 h4 unconvert_convert_amended [OF h1 h2] unconvert_convert_amended [OF h3 h4]
    by (simp add: is_expectation_def)
qed



text \<open>
  Claim C7: for every semiring and every potentials input accepted by \<^verbatim>\<open>convert\<close>, the
  converted value has a leading dimension, and its length equals \<^verbatim>\<open>size()\<close>: 1 for
  Counting, Log and Max (and Temperature-Max), \<open>k\<close> for \<^verbatim>\<open>KMaxSemiring(k)\<close>, 2 for
  Entropy, 3 for KL-Divergence, Cross-Entropy and Risk.
\<close>

theorem convert_leading_dimension_is_size:
  assumes "convert sr p = Inr v"
  shows "shape v \<noteq> [] \<and> hd (shape v) = semiring_size sr
    \<and> semiring_size sr =
        (case sr of KMaxSemiring k \<Rightarrow> k | EntropySemiring \<Rightarrow> 2 | KLDivergenceSemiring \<Rightarrow> 3
         | CrossEntropySemiring \<Rightarrow> 3 | RiskSemiring \<Rightarrow> 3 | _ \<Rightarrow> 1)"
proof -
  have base: "Semiring_convert p = Inr v \<Longrightarrow> shape v \<noteq> [] \<and> hd (shape v) = 1"
    by (auto simp: Semiring_convert_def unsqueeze_0 split: potentials.splits)
  have kmax: "KMaxSemiring_convert k p = Inr v \<Longrightarrow> shape v \<noteq> [] \<and> hd (shape v) = k" for k
    by (auto simp: KMaxSemiring_convert_def Let_def BaseLog_zero_inplace_def fill_def zeros_def
        split: potentials.splits dest!: set_item_shape)
  have three: "convert3 p = Inr v \<Longrightarrow> shape v \<noteq> [] \<and> hd (shape v) = 3"
    by (auto dest!: convert3_shape)
  have two: "EntropySemiring_convert p = Inr v \<Longrightarrow> shape v \<noteq> [] \<and> hd (shape v) = 2"
    by (auto simp: EntropySemiring_convert_def Let_def zeros_def then_do_eq_Inr
        split: potentials.splits dest!: set_item_shape set_item_scalar_shape)
  show ?thesis
    using assms base kmax three two
    by (cases sr)
      (simp_all add: Semiring_size_def KMaxSemiring_size_def KLDivergenceSemiring_size_def
        CrossEntropySemiring_size_def EntropySemiring_size_def RiskSemiring_size_def
        KLDivergenceSemiring_convert_def CrossEntropySemiring_convert_def RiskSemiring_convert_def)
qed

theorem convert_leading_dimension_is_size_witness:
  "convert (KMaxSemiring 2) (PTensor \<lparr>shape = [3], data = [1, 2, 3]\<rparr>)
     = Inr \<lparr>shape = [2, 3], data = [1, 2, 3, NEGINF, NEGINF, NEGINF]\<rparr>
   \<and> hd (shape \<lparr>shape = [2, 3], data = [1, 2, 3, NEGINF, NEGINF, NEGINF]\<rparr>)
       = semiring_size (KMaxSemiring 2)
   \<and> semiring_size (KMaxSemiring 2) = 2"
proof -
  have h: "convert (KMaxSemiring 2) (PTensor \<lparr>shape = [3], data = [1, 2, 3]\<rparr>)
     = Inr \<lparr>shape = [2, 3], data = [1, 2, 3, NEGINF, NEGINF, NEGINF]\<rparr>"
    by code_simp
  show ?thesis
    using h convert_leading_dimension_is_size [OF h] by simp
qed

text \<open>
  Claim C8: for every semiring, \<^verbatim>\<open>zero_mask_(xs, mask)\<close> returns \<open>None\<close> and leaves
  \<^verbatim>\<open>xs\<close> with the same shape, where every masked position of every component holds
  what \<^verbatim>\<open>zero_\<close> writes into that component, and every unmasked position is unchanged.
  The value written is the component's own: 0 for the Counting semiring, the sentinel
  \<open>NEGINF\<close> for Log, Max, K-Max and Temperature-Max, \<open>(NEGINF, NEGINF, 0)\<close> for
  KL-Divergence and Cross-Entropy, \<open>(NEGINF, 0)\<close> for Entropy and \<open>(NEGINF, 0, 0)\<close> for
  Risk.  Here \<^verbatim>\<open>xs\<close> has \<^verbatim>\<open>size()\<close> components of shape \<open>s\<close> and the mask has shape \<open>s\<close>.
\<close>

theorem zero_mask_fills_componentwise:
  assumes "shape xs = semiring_size sr # s" "shape msk = s"
  shows "\<exists>xs' z. zero_mask_inplace sr xs msk = Inr (None, xs') \<and> zero_inplace sr xs = Inr z
      \<and> shape xs' = shape xs
      \<and> (\<forall>j idx. j < semiring_size sr \<and> valid_index s idx \<longrightarrow>
           elem xs' (j # idx)
             = (if elem msk idx then elem z (j # idx) else elem xs (j # idx))
           \<and> elem z (j # idx)
             = (case sr of
                  StdSemiring \<Rightarrow> 0
                | KLDivergenceSemiring \<Rightarrow> [NEGINF, NEGINF, 0] ! j
                | CrossEntropySemiring \<Rightarrow> [NEGINF, NEGINF, 0] ! j
                | EntropySemiring \<Rightarrow> [NEGINF, 0] ! j
                | RiskSemiring \<Rightarrow> [NEGINF, 0, 0] ! j
                | _ \<Rightarrow> NEGINF))"
proof (cases sr)
  case StdSemiring
  then show ?thesis
    using zero_mask_base_case [of xs "semiring_size sr" s msk 0] assms
    by (simp add: Base_zero_def Base_zero_inplace_def)
next
  case LogSemiring
  then show ?thesis
    using zero_mask_base_case [of xs "semiring_size sr" s msk NEGINF] assms
    by (simp add: BaseLog_zero_def BaseLog_zero_inplace_def)
next
  case MaxSemiring
  then show ?thesis
    using zero_mask_base_case [of xs "semiring_size sr" s msk NEGINF] assms
    by (simp add: BaseLog_zero_def BaseLog_zero_inplace_def)
next
  case (KMaxSemiring k)
  then show ?thesis
    using zero_mask_base_case [of xs "semiring_size sr" s msk NEGINF] assms
    by (simp add: BaseLog_zero_def BaseLog_zero_inplace_def)
next
  case KLDivergenceSemiring
  then show ?thesis
    using zero_mask_three_case [of xs s msk NEGINF NEGINF 0] assms
    by (simp add: KLDivergenceSemiring_size_def KLDivergenceSemiring_zero_mask_inplace_def
        KLDivergenceSemiring_zero_inplace_def)
next
  case CrossEntropySemiring
  then show ?thesis
    using zero_mask_three_case [of xs s msk NEGINF NEGINF 0] assms
    by (simp add: CrossEntropySemiring_size_def CrossEntropySemiring_zero_mask_inplace_def
        CrossEntropySemiring_zero_inplace_def)
next
  case EntropySemiring
  then show ?thesis
    using zero_mask_two_case [of xs s msk] assms
    by (simp add: EntropySemiring_size_def)
next
  case RiskSemiring
  then show ?thesis
    using zero_mask_three_case [of xs s msk NEGINF 0 0] assms
    by (simp add: RiskSemiring_size_def RiskSemiring_zero_mask_inplace_def
        RiskSemiring_zero_inplace_def)
next
  case (TempMax alpha)
  then show ?thesis
    using zero_mask_base_case [of xs "semiring_size sr" s msk NEGINF] assms
    by (simp add: BaseLog_zero_def BaseLog_zero_inplace_def)
qed

theorem zero_mask_fills_componentwise_witness:
  "shape \<lparr>shape = [3, 2], data = [1, 2, 3, 4, 5, 6 :: real]\<rparr> = semiring_size RiskSemiring # [2]
   \<and> shape \<lparr>shape = [2], data = [True, False]\<rparr> = [2]
   \<and> (\<exists>xs' z.
         zero_mask_inplace RiskSemiring \<lparr>shape = [3, 2], data = [1, 2, 3, 4, 5, 6]\<rparr>
             \<lparr>shape = [2], data = [True, False]\<rparr> = Inr (None, xs')
       \<and> zero_inplace RiskSemiring \<lparr>shape = [3, 2], data = [1, 2, 3, 4, 5, 6]\<rparr> = Inr z
       \<and> elem xs' [0, 0] = NEGINF \<and> elem xs' [0, 1] = 2
       \<and> elem xs' [1, 0] = 0 \<and> elem xs' [2, 1] = 6)"
proof -
  let ?xs = "\<lparr>shape = [3, 2], data = [1, 2, 3, 4, 5, 6 :: real]\<rparr>"
  let ?m = "\<lparr>shape = [2], data = [True, False]\<rparr>"
  have h1: "shape ?xs = semiring_size RiskSemiring # [2]"
    by (simp add: RiskSemiring_size_def)
  have h2: "shape ?m = [2]" by simp
  from zero_mask_fills_componentwise [OF h1 h2]
  obtain xs' z where r: "zero_mask_inplace RiskSemiring ?xs ?m = Inr (None, xs')"
      "zero_inplace RiskSemiring ?xs = Inr z"
    and e: "\<And>j idx. j < semiring_size RiskSemiring \<Longrightarrow> valid_index [2] idx \<Longrightarrow>
           elem xs' (j # idx) = (if elem ?m idx then elem z (j # idx) else elem ?xs (j # idx))
           \<and> elem z (j # idx) = [NEGINF, 0, 0] ! j"
    by auto
  have "elem xs' [0, 0] = NEGINF" "elem xs' [0, 1] = 2" "elem xs' [1, 0] = 0" "elem xs' [2, 1] = 6"
    using e [of 0 "[0]"] e [of 0 "[1]"] e [of 1 "[0]"] e [of 2 "[1]"]
    by (simp_all add: RiskSemiring_size_def elem_def)
  with r h1 h2 show ?thesis by blast
qed

text \<open>
  Claim C1: for the KL-Divergence semiring, \<^verbatim>\<open>sum\<close> along a non-leading axis (axis \<open>a\<close> of
  the components, written as the positive \<open>a + 1\<close> or as the negative \<open>a - n\<close> for
  components with \<open>n\<close> axes; the axis is not empty) returns a stack of three components
  without that axis.  The first two are the log-sum-exp of the p-stream and of the
  q-stream of the input over the axis; the third is the sum over the axis of
  \<open>softmax(p) * (stat + log_sm_p - log_sm_q)\<close>, with \<open>log_sm_p\<close> and \<open>log_sm_q\<close> the
  log-softmax of each stream over the axis.  Elements are real numbers.
\<close>

theorem KLDivergenceSemiring_sum_components:
  assumes "shape xs = 3 # s" "a < length s" "0 < s ! a"
    and "dm = int a + 1 \<or> dm = int a - int (length s)"
  shows "\<exists>r. KLDivergenceSemiring_sum xs dm = Inr r \<and> shape r = 3 # remove_nth a s
     \<and> (\<forall>idx. valid_index (remove_nth a s) idx \<longrightarrow>
          elem r (0 # idx) = logsumexp_list (component_lane xs 0 a idx)
        \<and> elem r (1 # idx) = logsumexp_list (component_lane xs 1 a idx)
        \<and> elem r (2 # idx)
            = kl_update (component_lane xs 0 a idx) (component_lane xs 1 a idx)
                (component_lane xs 2 a idx))"
  by (simp add: KLDivergenceSemiring_sum_eq [OF assms])

theorem KLDivergenceSemiring_sum_components_witness:
  "shape \<lparr>shape = [3, 2], data = [1, 2, 3, 4, 5, 6 :: real]\<rparr> = 3 # [2]
   \<and> (0 :: nat) < length [2 :: nat] \<and> 0 < [2 :: nat] ! 0
   \<and> (- 1 :: int) = int 0 - int (length [2 :: nat])
   \<and> (\<exists>r. KLDivergenceSemiring_sum \<lparr>shape = [3, 2], data = [1, 2, 3, 4, 5, 6]\<rparr> (- 1) = Inr r
        \<and> shape r = [3]
        \<and> elem r [0] = logsumexp_list [1, 2]
        \<and> elem r [1] = logsumexp_list [3, 4]
        \<and> elem r [2] = kl_update [1, 2] [3, 4] [5, 6])"
proof -
  let ?xs = "\<lparr>shape = [3, 2], data = [1, 2, 3, 4, 5, 6 :: real]\<rparr>"
  have h1: "shape ?xs = 3 # [2]" by simp
  have h2: "(0 :: nat) < length [2 :: nat]" by simp
  have h3: "0 < [2 :: nat] ! 0" by simp
  have h4: "(- 1 :: int) = int 0 + 1 \<or> (- 1 :: int) = int 0 - int (length [2 :: nat])" by simp
  have l: "component_lane ?xs 0 0 [] = [1, 2]" "component_lane ?xs 1 0 [] = [3, 4]"
    "component_lane ?xs 2 0 [] = [5, 6]"
    by code_simp+
  have v: "valid_index (remove_nth 0 [2]) []" by (simp add: remove_nth_def)
  from KLDivergenceSemiring_sum_components [OF h1 h2 h3 h4] v
  obtain r where "KLDivergenceSemiring_sum ?xs (- 1) = Inr r" "shape r = 3 # remove_nth 0 [2]"
    "elem r [0] = logsumexp_list (component_lane ?xs 0 0 [])"
    "elem r [1] = logsumexp_list (component_lane ?xs 1 0 [])"
    "elem r [2] = kl_update (component_lane ?xs 0 0 []) (component_lane ?xs 1 0 [])
        (component_lane ?xs 2 0 [])"
    by blast
  then show ?thesis
    unfolding l by (simp add: remove_nth_def)
qed

text \<open>
  Claim C9: for the Risk semiring, the result of \<^verbatim>\<open>sum\<close> over an accepted (non-empty)
  axis has its second component, the cost stream, equal to zero everywhere; the third
  component is the sum over the reduced axis of \<open>softmax(p) * (cost + stat)\<close>, and the
  first is the log-sum-exp of the p-stream.
\<close>

theorem RiskSemiring_sum_cost_stream_zero:
  assumes "shape xs = 3 # s" "a < length s" "0 < s ! a"
    and "dm = int a + 1 \<or> dm = int a - int (length s)"
  shows "\<exists>r. RiskSemiring_sum xs dm = Inr r \<and> shape r = 3 # remove_nth a s
     \<and> (\<forall>idx. valid_index (remove_nth a s) idx \<longrightarrow>
          elem r (0 # idx) = logsumexp_list (component_lane xs 0 a idx)
        \<and> elem r (1 # idx) = 0
        \<and> elem r (2 # idx)
            = risk_update (component_lane xs 0 a idx) (component_lane xs 1 a idx)
                (component_lane xs 2 a idx))"
  by (simp add: RiskSemiring_sum_eq [OF assms])

theorem RiskSemiring_sum_cost_stream_zero_witness:
  "shape \<lparr>shape = [3, 2], data = [1, 2, 3, 4, 5, 6 :: real]\<rparr> = 3 # [2]
   \<and> (0 :: nat) < length [2 :: nat] \<and> 0 < [2 :: nat] ! 0
   \<and> (1 :: int) = int 0 + 1
   \<and> (\<exists>r. RiskSemiring_sum \<lparr>shape = [3, 2], data = [1, 2, 3, 4, 5, 6]\<rparr> 1 = Inr r
        \<and> shape r = [3]
        \<and> elem r [0] = logsumexp_list [1, 2]
        \<and> elem r [1] = 0
        \<and> elem r [2] = risk_update [1, 2] [3, 4] [5, 6])"
proof -
  let ?xs = "\<lparr>shape = [3, 2], data = [1, 2, 3, 4, 5, 6 :: real]\<rparr>"
  have h1: "shape ?xs = 3 # [2]" by simp
  have h2: "(0 :: nat) < length [2 :: nat]" by simp
  have h3: "0 < [2 :: nat] ! 0" by simp
  have h4: "(1 :: int) = int 0 + 1 \<or> (1 :: int) = int 0 - int (length [2 :: nat])" by simp
  have l: "component_lane ?xs 0 0 [] = [1, 2]" "component_lane ?xs 1 0 [] = [3, 4]"
    "component_lane ?xs 2 0 [] = [5, 6]"
    by code_simp+
  have v: "valid_index (remove_nth 0 [2]) []" by (simp add: remove_nth_def)
  from RiskSemiring_sum_cost_stream_zero [OF h1 h2 h3 h4] v
  obtain r where "RiskSemiring_sum ?xs 1 = Inr r" "shape r = 3 # remove_nth 0 [2]"
    "elem r [0] = logsumexp_list (component_lane ?xs 0 0 [])"
    "elem r [1] = 0"
    "elem r [2] = risk_update (component_lane ?xs 0 0 []) (component_lane ?xs 1 0 [])
        (component_lane ?xs 2 0 [])"
    by blast
  then show ?thesis
    unfolding l by (simp add: remove_nth_def)
qed



text \<open>
  Claim C2: for every \<open>k \<ge> 1\<close> and any two values \<open>a\<close>, \<open>b\<close> with leading dimension \<open>k\<close>
  (and the same trailing shape \<open>s\<close>), \<^verbatim>\<open>KMaxSemiring(k).mul(a, b)\<close> returns a tensor with
  leading dimension \<open>k\<close> that holds, at every position of the trailing axes, the \<open>k\<close>
  largest of the \<open>k * k\<close> pairwise sums \<open>a_i + b_j\<close> at that position, in descending
  order.
\<close>

theorem KMaxSemiring_mul_k_largest_pairwise_sums:
  assumes "0 < k" "shape a = k # s" "shape b = k # s"
  shows "\<exists>ret. KMaxSemiring_mul k a b = Inr ret \<and> shape ret = k # s
     \<and> (\<forall>r. valid_index s r \<longrightarrow>
           length (pairwise_sums a b k r) = k * k
         \<and> is_k_largest k (pairwise_sums a b k r) (column ret k r))"
proof -
  let ?ret = "tabulate (k # s) (\<lambda>idx. topk_list k (pairwise_sums a b k (tl idx)) ! hd idx)"
  have kk: "k \<le> length (pairwise_sums a b k r)" for r
    using assms(1) by (cases k) (simp_all add: length_pairwise_sums)
  have "is_k_largest k (pairwise_sums a b k r) (column ?ret k r)" if r: "valid_index s r" for r
  proof -
    have "column ?ret k r = topk_list k (pairwise_sums a b k r)"
      by (rule column_tabulate_nth [OF r]) (rule length_topk_list [OF kk])
    then show ?thesis
      using is_k_largest_topk_list [OF kk] by simp
  qed
  then show ?thesis
    by (simp add: KMaxSemiring_mul_eq [OF assms(2,3,1)] length_pairwise_sums)
qed

theorem KMaxSemiring_mul_k_largest_pairwise_sums_witness:
  "(0 :: nat) < 2
   \<and> shape \<lparr>shape = [2], data = [3, 1 :: real]\<rparr> = 2 # []
   \<and> shape \<lparr>shape = [2], data = [2, 0 :: real]\<rparr> = 2 # []
   \<and> KMaxSemiring_mul 2 \<lparr>shape = [2], data = [3, 1]\<rparr> \<lparr>shape = [2], data = [2, 0]\<rparr>
       = Inr \<lparr>shape = [2], data = [5, 3]\<rparr>
   \<and> pairwise_sums \<lparr>shape = [2], data = [3, 1]\<rparr> \<lparr>shape = [2], data = [2, 0]\<rparr> 2 []
       = [5, 3, 3, 1]
   \<and> column \<lparr>shape = [2], data = [5, 3]\<rparr> 2 [] = [5, 3]
   \<and> is_k_largest 2 [5, 3, 3, 1] [5, 3]"
proof -
  let ?a = "\<lparr>shape = [2], data = [3, 1 :: real]\<rparr>"
  let ?b = "\<lparr>shape = [2], data = [2, 0 :: real]\<rparr>"
  have h1: "(0 :: nat) < 2" by simp
  have h2: "shape ?a = 2 # []" by simp
  have h3: "shape ?b = 2 # []" by simp
  have m: "KMaxSemiring_mul 2 ?a ?b = Inr \<lparr>shape = [2], data = [5, 3]\<rparr>"
    by code_simp
  have p: "pairwise_sums ?a ?b 2 [] = [5, 3, 3, 1]"
    by code_simp
  have c: "column \<lparr>shape = [2], data = [5, 3]\<rparr> 2 [] = [5, 3]"
    by code_simp
  from KMaxSemiring_mul_k_largest_pairwise_sums [OF h1 h2 h3] m
  have "is_k_largest 2 (pairwise_sums ?a ?b 2 []) (column \<lparr>shape = [2], data = [5, 3]\<rparr> 2 [])"
    by auto
  then have "is_k_largest 2 [5, 3, 3, 1] [5, 3]"
    by (simp only: p c)
  with h1 h2 h3 m p c show ?thesis by blast
qed




text \<open>
  Claim C6: for \<open>k = 1\<close> and identical inputs, \<^verbatim>\<open>KMaxSemiring(1).sum\<close> over the last axis
  and \<^verbatim>\<open>KMaxSemiring(1).mul\<close> return what \<^verbatim>\<open>MaxSemiring.sum\<close> and \<^verbatim>\<open>MaxSemiring.mul\<close>
  return.  The inputs are values of both semirings: a leading dimension 1, for
  \<^verbatim>\<open>sum\<close> at least one more axis and no empty axis, for \<^verbatim>\<open>mul\<close> two values of one shape.
  The two semirings also convert a tensor to the same value and unconvert a value to the
  same tensor, so the unconverted results agree as well.
\<close>

theorem KMaxSemiring_1_agrees_with_MaxSemiring:
  assumes "shape xs = 1 # s @ [n]" "prod_list s \<noteq> 0" "0 < n"
    and "shape a = 1 # s'" "shape b = 1 # s'"
  shows "KMaxSemiring_sum 1 xs (- 1) = MaxSemiring_sum xs (- 1)
     \<and> (\<exists>r. MaxSemiring_sum xs (- 1) = Inr r \<and> shape r = 1 # s)
     \<and> mul (KMaxSemiring 1) a b = mul MaxSemiring a b
     \<and> (\<exists>c. mul MaxSemiring a b = Inr c \<and> shape c = 1 # s')
     \<and> (wf p \<longrightarrow> convert (KMaxSemiring 1) (PTensor p) = convert MaxSemiring (PTensor p))
     \<and> (wf v \<and> shape v = 1 # sv \<longrightarrow> unconvert (KMaxSemiring 1) v = unconvert MaxSemiring v)"
proof -
  have xs: "shape xs = Suc 0 # s @ [n]" and a: "shape a = Suc 0 # s'" and b: "shape b = Suc 0 # s'"
    using assms by simp_all
  have 1: "KMaxSemiring_sum 1 xs (- 1) = MaxSemiring_sum xs (- 1)"
    using KMax1_sum_eq_Max [OF xs assms(2,3)] by simp
  have 2: "\<exists>r. MaxSemiring_sum xs (- 1) = Inr r \<and> shape r = 1 # s"
    by (simp add: MaxSemiring_sum_last_eq [OF xs assms(3)])
  have 3: "mul (KMaxSemiring 1) a b = mul MaxSemiring a b"
    using KMax1_mul_eq_Max [OF a b] by simp
  have 4: "\<exists>c. mul MaxSemiring a b = Inr c \<and> shape c = 1 # s'"
    by (simp add: BaseLog_mul_def tensor_add_def binop_same [OF a b])
  have 5: "wf p \<longrightarrow> convert (KMaxSemiring 1) (PTensor p) = convert MaxSemiring (PTensor p)"
    using KMax1_convert_eq [of p] by simp
  have 6: "wf v \<and> shape v = 1 # sv \<longrightarrow> unconvert (KMaxSemiring 1) v = unconvert MaxSemiring v"
    using KMax1_unconvert_eq [of v sv] by simp
  from 1 2 3 4 5 6 show ?thesis by blast
qed

theorem KMaxSemiring_1_agrees_with_MaxSemiring_witness:
  "shape \<lparr>shape = [1, 2, 3], data = [1, 5, 3, 4, 2, 6 :: real]\<rparr> = 1 # [2] @ [3]
   \<and> prod_list [2 :: nat] \<noteq> 0 \<and> (0 :: nat) < 3
   \<and> shape \<lparr>shape = [1, 2], data = [1, 2 :: real]\<rparr> = 1 # [2]
   \<and> shape \<lparr>shape = [1, 2], data = [10, 20 :: real]\<rparr> = 1 # [2]
   \<and> KMaxSemiring_sum 1 \<lparr>shape = [1, 2, 3], data = [1, 5, 3, 4, 2, 6]\<rparr> (- 1)
       = MaxSemiring_sum \<lparr>shape = [1, 2, 3], data = [1, 5, 3, 4, 2, 6]\<rparr> (- 1)
   \<and> MaxSemiring_sum \<lparr>shape = [1, 2, 3], data = [1, 5, 3, 4, 2, 6]\<rparr> (- 1)
       = Inr \<lparr>shape = [1, 2], data = [5, 6]\<rparr>
   \<and> mul (KMaxSemiring 1) \<lparr>shape = [1, 2], data = [1, 2]\<rparr> \<lparr>shape = [1, 2], data = [10, 20]\<rparr>
       = mul MaxSemiring \<lparr>shape = [1, 2], data = [1, 2]\<rparr> \<lparr>shape = [1, 2], data = [10, 20]\<rparr>
   \<and> mul MaxSemiring \<lparr>shape = [1, 2], data = [1, 2]\<rparr> \<lparr>shape = [1, 2], data = [10, 20]\<rparr>
       = Inr \<lparr>shape = [1, 2], data = [11, 22]\<rparr>"
proof -
  let ?xs = "\<lparr>shape = [1, 2, 3], data = [1, 5, 3, 4, 2, 6 :: real]\<rparr>"
  let ?a = "\<lparr>shape = [1, 2], data = [1, 2 :: real]\<rparr>"
  let ?b = "\<lparr>shape = [1, 2], data = [10, 20 :: real]\<rparr>"
  have h1: "shape ?xs = 1 # [2] @ [3]" by simp
  have h2: "prod_list [2 :: nat] \<noteq> 0" by simp
  have h3: "(0 :: nat) < 3" by simp
  have h4: "shape ?a = 1 # [2]" by simp
  have h5: "shape ?b = 1 # [2]" by simp
  have m: "MaxSemiring_sum ?xs (- 1) = Inr \<lparr>shape = [1, 2], data = [5, 6]\<rparr>"
    by code_simp
  have u: "mul MaxSemiring ?a ?b = Inr \<lparr>shape = [1, 2], data = [11, 22]\<rparr>"
    by code_simp
  from KMaxSemiring_1_agrees_with_MaxSemiring [OF h1 h2 h3 h4 h5]
  have "KMaxSemiring_sum 1 ?xs (- 1) = MaxSemiring_sum ?xs (- 1)"
    and "mul (KMaxSemiring 1) ?a ?b = mul MaxSemiring ?a ?b"
    by blast+
  with h1 h2 h3 h4 h5 m u show ?thesis by blast
qed

end
